theory Spec2Isabelle
  imports Main
begin

section \<open>Brand-name normalisation (\<^verbatim>\<open>process_brand_for_search\<close>)\<close>

text \<open>
  The repository holds one function, \<^verbatim>\<open>process_brand_for_search(brand_name, mode)\<close>,
  in \<^verbatim>\<open>src/brand_processing/process_brands.py\<close>. It lower-cases a brand name, strips
  diacritics, collapses dotted abbreviations, turns punctuation into spaces, drops
  stop-words, collapses whitespace and, in mode \<^verbatim>\<open>'alphanumeric'\<close>, deletes everything
  outside \<^verbatim>\<open>[a-z0-9]\<close>.

  A Python \<^verbatim>\<open>str\<close> is a sequence of Unicode code points. A code point is modelled as a
  natural number and a string as a list of code points.
\<close>

type_synonym ustring = "nat list"

definition u :: "string \<Rightarrow> ustring" where
  \<comment> \<open>the code points of an ASCII literal\<close>
  "u s = map of_char s"

subsection \<open>Python values\<close>

text \<open>
  The arguments are dynamically typed. Of a value that is not a \<^verbatim>\<open>str\<close> the function
  looks at the truth value only, so one constructor, \<open>PyObject\<close>, stands for every other
  kind of value (a float, a tuple, a dict, an object of a library) and carries the outcome
  of its truth test. The truth test of an object is the object's own \<^verbatim>\<open>__bool__\<close> or
  \<^verbatim>\<open>__len__\<close> and may raise: that of a numpy array with several elements raises
  ValueError, that of \<^verbatim>\<open>pandas.NA\<close> raises TypeError. The comparison of the mode with a
  string is the language's own, which raises nothing.
\<close>

datatype exn = AttributeError | TypeError | ValueError

datatype pyval =
    PyNone
  | PyBool bool
  | PyInt int
  | PyStr ustring
  | PyBytes "nat list"
  | PyList "pyval list"
  | PyObject "exn + bool"

fun truthy :: "pyval \<Rightarrow> exn + bool" where
  \<comment> \<open>the truth test that \<^verbatim>\<open>not brand_name\<close> makes\<close>
  "truthy PyNone = Inr False"
| "truthy (PyBool b) = Inr b"
| "truthy (PyInt i) = Inr (i \<noteq> 0)"
| "truthy (PyStr s) = Inr (s \<noteq> [])"
| "truthy (PyBytes b) = Inr (b \<noteq> [])"
| "truthy (PyList xs) = Inr (xs \<noteq> [])"
| "truthy (PyObject outcome) = outcome"

fun isinstance_str :: "pyval \<Rightarrow> bool" where
  "isinstance_str (PyStr s) = True"
| "isinstance_str v = False"

subsection \<open>Unicode character data\<close>

text \<open>
  \<^verbatim>\<open>str.lower\<close>, \<^verbatim>\<open>unicodedata.normalize\<close>, \<^verbatim>\<open>unicodedata.combining\<close> and the regular
  expression classes \<^verbatim>\<open>\w\<close>, \<^verbatim>\<open>\s\<close>, \<^verbatim>\<open>\d\<close> read the Unicode Character Database that
  ships with the interpreter. It is not part of the repository and changes with the
  interpreter's version, so it is a parameter \<open>db\<close> of the model. Only code points from 128
  on are looked up in \<open>db\<close>: the ASCII rows are the same in every version and are written
  out.
\<close>

record ucd =
  uc_lower :: "ustring \<Rightarrow> nat \<Rightarrow> ustring \<Rightarrow> ustring"
    \<comment> \<open>full lower-case mapping of a character between the given prefix and suffix
        (the context matters for the final-sigma rule only)\<close>
  uc_decomp :: "nat \<Rightarrow> ustring"
    \<comment> \<open>full compatibility decomposition of a character\<close>
  uc_combining :: "nat \<Rightarrow> nat"
    \<comment> \<open>canonical combining class\<close>
  uc_isalnum :: "nat \<Rightarrow> bool"
  uc_isspace :: "nat \<Rightarrow> bool"
  uc_isdecimal :: "nat \<Rightarrow> bool"

definition ascii_lower :: "nat \<Rightarrow> nat" where
  "ascii_lower c = (if 65 \<le> c \<and> c \<le> 90 then c + 32 else c)"

definition py_isspace :: "ucd \<Rightarrow> nat \<Rightarrow> bool" where
  \<comment> \<open>\<^verbatim>\<open>str.isspace\<close> of one character; also the class \<^verbatim>\<open>\s\<close> and what \<^verbatim>\<open>split\<close> and
      \<^verbatim>\<open>strip\<close> treat as whitespace\<close>
  "py_isspace db c =
     (if c < 128 then (9 \<le> c \<and> c \<le> 13) \<or> (28 \<le> c \<and> c \<le> 32) else uc_isspace db c)"

definition py_isalnum :: "ucd \<Rightarrow> nat \<Rightarrow> bool" where
  "py_isalnum db c =
     (if c < 128 then (48 \<le> c \<and> c \<le> 57) \<or> (65 \<le> c \<and> c \<le> 90) \<or> (97 \<le> c \<and> c \<le> 122)
      else uc_isalnum db c)"

definition py_isdecimal :: "ucd \<Rightarrow> nat \<Rightarrow> bool" where
  "py_isdecimal db c = (if c < 128 then 48 \<le> c \<and> c \<le> 57 else uc_isdecimal db c)"

definition py_isword :: "ucd \<Rightarrow> nat \<Rightarrow> bool" where
  \<comment> \<open>the class \<^verbatim>\<open>\w\<close>: alphanumeric or underscore\<close>
  "py_isword db c = (py_isalnum db c \<or> c = 95)"

definition py_combining :: "ucd \<Rightarrow> nat \<Rightarrow> nat" where
  "py_combining db c = (if c < 128 then 0 else uc_combining db c)"

fun py_lower_from :: "ucd \<Rightarrow> ustring \<Rightarrow> ustring \<Rightarrow> ustring" where
  "py_lower_from db pre [] = []"
| "py_lower_from db pre (c # cs) =
     (if c < 128 then [ascii_lower c] else uc_lower db pre c cs)
       @ py_lower_from db (pre @ [c]) cs"

definition py_lower :: "ucd \<Rightarrow> ustring \<Rightarrow> ustring" where
  \<comment> \<open>\<^verbatim>\<open>str.lower()\<close>\<close>
  "py_lower db s = py_lower_from db [] s"

definition decompose :: "ucd \<Rightarrow> ustring \<Rightarrow> ustring" where
  "decompose db s = concat (map (\<lambda>c. if c < 128 then [c] else uc_decomp db c) s)"

function canonical_order :: "ucd \<Rightarrow> ustring \<Rightarrow> ustring" where
  "canonical_order db [] = []"
| "canonical_order db (c # cs) =
     (if py_combining db c = 0 then c # canonical_order db cs
      else sort_key (py_combining db) (takeWhile (\<lambda>x. py_combining db x \<noteq> 0) (c # cs))
             @ canonical_order db (dropWhile (\<lambda>x. py_combining db x \<noteq> 0) (c # cs)))"
  by pat_completeness auto
termination
  by (relation "measure (\<lambda>(db, s). length s)")
     (auto simp: less_Suc_eq_le length_dropWhile_le)

definition nfkd :: "ucd \<Rightarrow> ustring \<Rightarrow> ustring" where
  \<comment> \<open>\<^verbatim>\<open>unicodedata.normalize('NFKD', s)\<close>: decompose every character, then sort each run
      of combining marks by combining class (a stable sort)\<close>
  "nfkd db s = canonical_order db (decompose db s)"

subsection \<open>String methods\<close>

function py_split :: "ucd \<Rightarrow> ustring \<Rightarrow> ustring list" where
  \<comment> \<open>\<^verbatim>\<open>s.split()\<close>: the maximal runs of non-whitespace characters\<close>
  "py_split db s =
     (let s' = dropWhile (py_isspace db) s in
      if s' = [] then []
      else takeWhile (\<lambda>c. \<not> py_isspace db c) s'
             # py_split db (dropWhile (\<lambda>c. \<not> py_isspace db c) s'))"
  by pat_completeness auto
termination
proof (relation "measure (\<lambda>(db, s). length s)", goal_cases)
  case 1
  show ?case by simp
next
  case (2 db s s')
  from 2 have ne: "s' \<noteq> []" and eq: "s' = dropWhile (py_isspace db) s"
    by simp_all
  from ne obtain c cs where s': "s' = c # cs"
    by (cases s') simp_all
  have c: "\<not> py_isspace db c"
    using ne hd_dropWhile [of "py_isspace db" s] by (simp add: eq [symmetric] s')
  have "length (dropWhile (\<lambda>c. \<not> py_isspace db c) s') \<le> length cs"
    using c by (simp add: s' length_dropWhile_le)
  also have "\<dots> < length s'" by (simp add: s')
  also have "\<dots> \<le> length s" by (simp add: eq length_dropWhile_le)
  finally show ?case by simp
qed

declare py_split.simps [simp del]

fun py_join :: "ustring \<Rightarrow> ustring list \<Rightarrow> ustring" where
  \<comment> \<open>\<^verbatim>\<open>sep.join(xs)\<close>\<close>
  "py_join sep [] = []"
| "py_join sep [x] = x"
| "py_join sep (x # y # ys) = x @ sep @ py_join sep (y # ys)"

definition py_strip :: "ucd \<Rightarrow> ustring \<Rightarrow> ustring" where
  \<comment> \<open>\<^verbatim>\<open>s.strip()\<close>\<close>
  "py_strip db s = rev (dropWhile (py_isspace db) (rev (dropWhile (py_isspace db) s)))"

subsection \<open>Regular expressions\<close>

text \<open>
  The patterns of the program use character classes, greedy repetition of a class,
  concatenation, alternation and the word boundary \<^verbatim>\<open>\b\<close>. Python's \<^verbatim>\<open>re\<close> is a
  backtracking matcher: \<open>rmatch\<close> lists the lengths of all matches that start at the head
  of the text, in the order in which backtracking finds them, so the match that \<^verbatim>\<open>re\<close>
  reports is the first one. \<open>prev\<close> is the character before the text, which \<^verbatim>\<open>\b\<close> looks at.
\<close>

datatype cset =
    CRange nat nat      \<comment> \<open>\<^verbatim>\<open>a-z\<close> inside brackets; a single character when both ends agree\<close>
  | CWord               \<comment> \<open>\<^verbatim>\<open>\w\<close>\<close>
  | CSpace              \<comment> \<open>\<^verbatim>\<open>\s\<close>\<close>
  | CDigit              \<comment> \<open>\<^verbatim>\<open>\d\<close>\<close>
  | CUnion cset cset    \<comment> \<open>\<^verbatim>\<open>[xy]\<close>\<close>
  | CNot cset           \<comment> \<open>\<^verbatim>\<open>[^x]\<close>\<close>

fun cset_mem :: "ucd \<Rightarrow> cset \<Rightarrow> nat \<Rightarrow> bool" where
  "cset_mem db (CRange lo hi) c = (lo \<le> c \<and> c \<le> hi)"
| "cset_mem db CWord c = py_isword db c"
| "cset_mem db CSpace c = py_isspace db c"
| "cset_mem db CDigit c = py_isdecimal db c"
| "cset_mem db (CUnion a b) c = (cset_mem db a c \<or> cset_mem db b c)"
| "cset_mem db (CNot a) c = (\<not> cset_mem db a c)"

datatype regex =
    One cset            \<comment> \<open>one character of the class\<close>
  | ZeroOrMore cset     \<comment> \<open>\<^verbatim>\<open>x*\<close>, greedy\<close>
  | OneOrMore cset      \<comment> \<open>\<^verbatim>\<open>x+\<close>, greedy\<close>
  | Then regex regex    \<comment> \<open>concatenation\<close>
  | Either regex regex  \<comment> \<open>\<^verbatim>\<open>x|y\<close>, the left alternative first\<close>
  | WordBoundary        \<comment> \<open>\<^verbatim>\<open>\b\<close>\<close>

definition word_before :: "ucd \<Rightarrow> nat option \<Rightarrow> bool" where
  "word_before db prev = (case prev of None \<Rightarrow> False | Some c \<Rightarrow> py_isword db c)"

definition word_here :: "ucd \<Rightarrow> ustring \<Rightarrow> bool" where
  "word_here db s = (case s of [] \<Rightarrow> False | c # _ \<Rightarrow> py_isword db c)"

definition prev_after :: "nat option \<Rightarrow> ustring \<Rightarrow> nat \<Rightarrow> nat option" where
  \<comment> \<open>the character before the position reached after \<open>k\<close> characters of \<open>s\<close>\<close>
  "prev_after prev s k = (if take k s = [] then prev else Some (last (take k s)))"

fun rmatch :: "ucd \<Rightarrow> regex \<Rightarrow> nat option \<Rightarrow> ustring \<Rightarrow> nat list" where
  "rmatch db (One cs) prev s =
     (case s of [] \<Rightarrow> [] | c # _ \<Rightarrow> if cset_mem db cs c then [1] else [])"
| "rmatch db (ZeroOrMore cs) prev s = rev [0 ..< Suc (length (takeWhile (cset_mem db cs) s))]"
| "rmatch db (OneOrMore cs) prev s = rev [1 ..< Suc (length (takeWhile (cset_mem db cs) s))]"
| "rmatch db (Then a b) prev s =
     concat (map (\<lambda>k. map (\<lambda>j. k + j) (rmatch db b (prev_after prev s k) (drop k s)))
                 (rmatch db a prev s))"
| "rmatch db (Either a b) prev s = rmatch db a prev s @ rmatch db b prev s"
| "rmatch db WordBoundary prev s = (if word_before db prev \<noteq> word_here db s then [0] else [])"

definition match_here :: "ucd \<Rightarrow> regex \<Rightarrow> nat option \<Rightarrow> ustring \<Rightarrow> nat option" where
  "match_here db r prev s = (case rmatch db r prev s of [] \<Rightarrow> None | k # _ \<Rightarrow> Some k)"

text \<open>
  \<^verbatim>\<open>re.sub\<close> and \<^verbatim>\<open>re.findall\<close> walk through the text from left to right: where the
  pattern matches, the match is taken and the walk goes on behind it, elsewhere one
  character is passed over. Every pattern of the program needs at least one character
  (see \<open>rmatch_nonempty\<close> below), so the rules of \<^verbatim>\<open>re\<close> for empty matches never apply; a
  match of length 0 is passed over like a failure.
\<close>

datatype piece = Lit nat | Hit ustring

function re_scan :: "ucd \<Rightarrow> regex \<Rightarrow> nat option \<Rightarrow> ustring \<Rightarrow> piece list" where
  "re_scan db r prev [] = []"
| "re_scan db r prev (c # cs) =
     (case match_here db r prev (c # cs) of
        None \<Rightarrow> Lit c # re_scan db r (Some c) cs
      | Some k \<Rightarrow>
          if k = 0 then Lit c # re_scan db r (Some c) cs
          else Hit (take k (c # cs))
                 # re_scan db r (prev_after prev (c # cs) k) (drop k (c # cs)))"
  by pat_completeness auto
termination
  by (relation "measure (\<lambda>(db, r, prev, s). length s)") auto

definition re_sub :: "ucd \<Rightarrow> regex \<Rightarrow> (ustring \<Rightarrow> ustring) \<Rightarrow> ustring \<Rightarrow> ustring" where
  \<comment> \<open>\<^verbatim>\<open>re.sub(pattern, repl, s)\<close> with a function \<open>repl\<close> of the matched text\<close>
  "re_sub db r repl s =
     concat (map (\<lambda>p. case p of Lit c \<Rightarrow> [c] | Hit m \<Rightarrow> repl m) (re_scan db r None s))"

definition re_findall :: "ucd \<Rightarrow> regex \<Rightarrow> ustring \<Rightarrow> ustring list" where
  \<comment> \<open>\<^verbatim>\<open>re.findall(pattern, s)\<close> for a pattern without groups\<close>
  "re_findall db r s =
     concat (map (\<lambda>p. case p of Lit c \<Rightarrow> [] | Hit m \<Rightarrow> [m]) (re_scan db r None s))"

subsection \<open>The function\<close>

definition lower_az :: cset where "lower_az = CRange 97 122"
definition digit_09 :: cset where "digit_09 = CRange 48 57"
definition dot :: cset where "dot = CRange 46 46"

definition model_pattern :: regex where
  \<comment> \<open>\<^verbatim>\<open>([a-z]+\.)([0-9]+)|([a-z]\.)([a-z]\.)\<close>\<close>
  "model_pattern =
     Either (Then (Then (OneOrMore lower_az) (One dot)) (OneOrMore digit_09))
            (Then (Then (One lower_az) (One dot)) (Then (One lower_az) (One dot)))"

definition special_pattern :: regex where
  \<comment> \<open>\<^verbatim>\<open>[^\w\s]\<close>\<close>
  "special_pattern = One (CNot (CUnion CWord CSpace))"

definition model_number_pattern :: regex where
  \<comment> \<open>\<^verbatim>\<open>\b[a-z]*\d+[a-z0-9]*\b\<close>\<close>
  "model_number_pattern =
     Then WordBoundary
       (Then (ZeroOrMore lower_az)
         (Then (OneOrMore CDigit)
           (Then (ZeroOrMore (CUnion lower_az digit_09)) WordBoundary)))"

definition whitespace_pattern :: regex where
  \<comment> \<open>\<^verbatim>\<open>\s+\<close>\<close>
  "whitespace_pattern = OneOrMore CSpace"

definition non_alnum_pattern :: regex where
  \<comment> \<open>\<^verbatim>\<open>[^a-z0-9]\<close>\<close>
  "non_alnum_pattern = One (CNot (CUnion lower_az digit_09))"

definition common_terms :: "ustring set" where
  "common_terms = set (map u
     [''original'', ''collection'', ''design'', ''limited'', ''edition'',
      ''watches'', ''watch'', ''classic'', ''vintage'', ''series'', ''type'',
      ''professional'', ''chronograph'', ''chronographe'', ''automatic'',
      ''manufacture'', ''gmt'', ''quartz'', ''mechanical'', ''reference'',
      ''ref'', ''model'', ''special'', ''for'', ''the'', ''and'', ''of''])"

definition preserved_terms :: "ustring set" where
  "preserved_terms = set (map u
     [''sport'', ''seamaster'', ''submariner'', ''navitimer'', ''royal'', ''oak'',
      ''datograph'', ''master'', ''control'', ''patrimony'', ''monaco'', ''nautilus'',
      ''daytona'', ''speedmaster'', ''calibre'', ''cal'', ''elegante'', ''laureato'',
      ''cosmograph'', ''moonwatch'', ''philippe'', ''patek'', ''breitling'', ''rolex'',
      ''omega'', ''tag'', ''heuer'', ''iwc'', ''piguet'', ''audemars'', ''lange'', ''sohne''])"

definition str_lower :: "ucd \<Rightarrow> pyval \<Rightarrow> exn + ustring" where
  \<comment> \<open>\<^verbatim>\<open>brand_name.lower()\<close> as the following \<^verbatim>\<open>unicodedata.normalize\<close> needs it: only a
      \<^verbatim>\<open>str\<close> has a method \<^verbatim>\<open>lower\<close> with a \<^verbatim>\<open>str\<close> result (\<^verbatim>\<open>bytes.lower()\<close> gives
      \<^verbatim>\<open>bytes\<close>, which \<^verbatim>\<open>normalize\<close> rejects with a TypeError)\<close>
  "str_lower db v =
     (case v of PyStr s \<Rightarrow> Inr (py_lower db s)
              | PyBytes b \<Rightarrow> Inl TypeError
              | _ \<Rightarrow> Inl AttributeError)"

definition strip_accents :: "ucd \<Rightarrow> ustring \<Rightarrow> ustring" where
  \<comment> \<open>lines 33-34: NFKD, then drop every character that has a combining class\<close>
  "strip_accents db s = filter (\<lambda>c. py_combining db c = 0) (nfkd db s)"

definition collapse_dots :: "ucd \<Rightarrow> ustring \<Rightarrow> ustring" where
  \<comment> \<open>line 39: \<^verbatim>\<open>model_pattern.sub(lambda m: m.group(0).replace('.', ''), result)\<close>\<close>
  "collapse_dots db s = re_sub db model_pattern (filter (\<lambda>c. c \<noteq> 46)) s"

definition replace_special :: "ucd \<Rightarrow> ustring \<Rightarrow> ustring" where
  \<comment> \<open>line 42: \<^verbatim>\<open>re.sub(r'[^\w\s]', ' ', result)\<close>\<close>
  "replace_special db s = re_sub db special_pattern (\<lambda>m. [32]) s"

definition model_numbers :: "ucd \<Rightarrow> ustring \<Rightarrow> ustring set" where
  \<comment> \<open>line 63\<close>
  "model_numbers db s = set (re_findall db model_number_pattern s)"

fun filter_words ::
  "ucd \<Rightarrow> ustring set \<Rightarrow> ustring set \<Rightarrow> ustring set \<Rightarrow> ustring list \<Rightarrow> ustring list
     \<Rightarrow> ustring list" where
  \<comment> \<open>the loop of lines 68-74. It reads three local variables of the function, the sets
      \<^verbatim>\<open>common_terms\<close>, \<^verbatim>\<open>preserved_terms\<close> and \<^verbatim>\<open>model_numbers\<close>, which are its
      arguments \<open>common\<close>, \<open>preserved\<close> and \<open>mn\<close>; the last argument is
      \<^verbatim>\<open>filtered_words\<close>\<close>
  "filter_words db common preserved mn [] filtered_words = filtered_words"
| "filter_words db common preserved mn (word # words) filtered_words =
     (let word_lower = py_lower db word in
      if word_lower \<notin> common \<or> word_lower \<in> preserved \<or> word_lower \<in> mn
      then filter_words db common preserved mn words (filtered_words @ [word])
      else filter_words db common preserved mn words filtered_words)"

definition collapse_whitespace :: "ucd \<Rightarrow> ustring \<Rightarrow> ustring" where
  \<comment> \<open>line 79: \<^verbatim>\<open>re.sub(r'\s+', ' ', result).strip()\<close>\<close>
  "collapse_whitespace db s = py_strip db (re_sub db whitespace_pattern (\<lambda>m. [32]) s)"

definition search_form :: "ucd \<Rightarrow> ustring \<Rightarrow> ustring" where
  \<comment> \<open>lines 33-79 applied to the lower-cased text: the value of \<^verbatim>\<open>result\<close> before the
      test of the mode\<close>
  "search_form db lowered =
     (let result = strip_accents db lowered;
          result = collapse_dots db result;
          result = replace_special db result;
          mn = model_numbers db result;
          words = py_split db result;
          filtered_words = filter_words db common_terms preserved_terms mn words [];
          result = py_join [32] filtered_words
      in collapse_whitespace db result)"

definition process_brand_for_search :: "ucd \<Rightarrow> pyval \<Rightarrow> pyval \<Rightarrow> exn + ustring" where
  "process_brand_for_search db brand_name mode =
     (case truthy brand_name of
        Inl e \<Rightarrow> Inl e
      | Inr truth \<Rightarrow>
          if \<not> truth \<or> \<not> isinstance_str brand_name then Inr []
          else case str_lower db brand_name of
                 Inl e \<Rightarrow> Inl e
               | Inr lowered \<Rightarrow>
                   (let result = search_form db lowered in
                    if mode = PyStr (u ''alphanumeric'')
                    then Inr (re_sub db non_alnum_pattern (\<lambda>m. []) result)
                    else Inr result))"

definition standard :: pyval where "standard = PyStr (u ''standard'')"
definition alphanumeric :: pyval where "alphanumeric = PyStr (u ''alphanumeric'')"

subsection \<open>Vocabulary of the statements and proofs\<close>

definition lower_alnum :: "nat \<Rightarrow> bool" where
  \<comment> \<open>the characters \<^verbatim>\<open>[a-z0-9]\<close>\<close>
  "lower_alnum c = ((97 \<le> c \<and> c \<le> 122) \<or> (48 \<le> c \<and> c \<le> 57))"

definition plain :: "nat \<Rightarrow> bool" where
  \<comment> \<open>an ASCII character that is not an upper-case letter\<close>
  "plain c = (c < 128 \<and> \<not> (65 \<le> c \<and> c \<le> 90))"

definition token :: "ucd \<Rightarrow> ustring \<Rightarrow> bool" where
  \<comment> \<open>a word: not empty and free of whitespace\<close>
  "token db w = (w \<noteq> [] \<and> list_all (\<lambda>c. \<not> py_isspace db c) w)"

definition delimited :: "ucd \<Rightarrow> ustring \<Rightarrow> ustring \<Rightarrow> bool" where
  \<comment> \<open>what stands between \<open>X\<close> and \<open>Y\<close> has whitespace or an end of the text on both sides\<close>
  "delimited db X Y =
     ((X = [] \<or> py_isspace db (last X)) \<and> (Y = [] \<or> py_isspace db (hd Y)))"

definition occurs :: "ucd \<Rightarrow> ustring \<Rightarrow> ustring \<Rightarrow> bool" where
  "occurs db w s = (\<exists>X Y. s = X @ w @ Y \<and> delimited db X Y)"

fun boundary_free :: "regex \<Rightarrow> bool" where
  \<comment> \<open>the pattern has no \<^verbatim>\<open>\b\<close>\<close>
  "boundary_free (One cs) = True"
| "boundary_free (ZeroOrMore cs) = True"
| "boundary_free (OneOrMore cs) = True"
| "boundary_free (Then a b) = (boundary_free a \<and> boundary_free b)"
| "boundary_free (Either a b) = (boundary_free a \<and> boundary_free b)"
| "boundary_free WordBoundary = False"

fun rejects :: "ucd \<Rightarrow> regex \<Rightarrow> nat \<Rightarrow> bool" where
  \<comment> \<open>no class of the pattern has the character, and the pattern has no \<^verbatim>\<open>\b\<close>:
      no match goes over this character or looks at it\<close>
  "rejects db (One cs) c = (\<not> cset_mem db cs c)"
| "rejects db (ZeroOrMore cs) c = (\<not> cset_mem db cs c)"
| "rejects db (OneOrMore cs) c = (\<not> cset_mem db cs c)"
| "rejects db (Then a b) c = (rejects db a c \<and> rejects db b c)"
| "rejects db (Either a b) c = (rejects db a c \<and> rejects db b c)"
| "rejects db WordBoundary c = False"

fun class_rejects :: "ucd \<Rightarrow> regex \<Rightarrow> nat \<Rightarrow> bool" where
  \<comment> \<open>no class of the pattern has the character: no match goes over it\<close>
  "class_rejects db (One cs) c = (\<not> cset_mem db cs c)"
| "class_rejects db (ZeroOrMore cs) c = (\<not> cset_mem db cs c)"
| "class_rejects db (OneOrMore cs) c = (\<not> cset_mem db cs c)"
| "class_rejects db (Then a b) c = (class_rejects db a c \<and> class_rejects db b c)"
| "class_rejects db (Either a b) c = (class_rejects db a c \<and> class_rejects db b c)"
| "class_rejects db WordBoundary c = True"

definition fullmatch :: "ucd \<Rightarrow> regex \<Rightarrow> ustring \<Rightarrow> bool" where
  \<comment> \<open>\<^verbatim>\<open>re.fullmatch(pattern, w)\<close> succeeds: some way of matching takes the whole of \<open>w\<close>\<close>
  "fullmatch db r w = (length w \<in> set (rmatch db r None w))"

definition model_number_char :: "ucd \<Rightarrow> nat \<Rightarrow> bool" where
  \<comment> \<open>a character of one of the three classes of the pattern of line 63\<close>
  "model_number_char db c =
     ((97 \<le> c \<and> c \<le> 122) \<or> py_isdecimal db c \<or> (48 \<le> c \<and> c \<le> 57))"

definition base_chars :: "ucd \<Rightarrow> ustring \<Rightarrow> ustring" where
  \<comment> \<open>the decomposition without its combining marks\<close>
  "base_chars db s = filter (\<lambda>c. py_combining db c = 0) (decompose db s)"

definition cleaned :: "ucd \<Rightarrow> ustring \<Rightarrow> ustring" where
  \<comment> \<open>the value of \<^verbatim>\<open>result\<close> after line 42\<close>
  "cleaned db lowered = replace_special db (collapse_dots db (strip_accents db lowered))"

definition kept_words :: "ucd \<Rightarrow> ustring \<Rightarrow> ustring list" where
  \<comment> \<open>the value of \<^verbatim>\<open>filtered_words\<close> after the loop\<close>
  "kept_words db lowered =
     filter_words db common_terms preserved_terms (model_numbers db (cleaned db lowered))
       (py_split db (cleaned db lowered)) []"

text \<open>
  Three facts about the whitespace characters beyond ASCII are used for claim C5: such a
  character is its own lower case, and its decomposition is not empty and consists of
  whitespace characters without combining class. Unicode has nineteen such characters
  (U+0085, U+00A0, U+1680, U+2000 to U+200A, U+2028, U+2029, U+202F, U+205F, U+3000);
  each either has no decomposition or decomposes to the space U+0020.
\<close>

definition whitespace_stable :: "ucd \<Rightarrow> bool" where
  "whitespace_stable db =
     (\<forall>c. 128 \<le> c \<and> uc_isspace db c \<longrightarrow>
        (\<forall>pre post. uc_lower db pre c post = [c])
        \<and> uc_decomp db c \<noteq> []
        \<and> (\<forall>d\<in>set (uc_decomp db c). py_isspace db d \<and> py_combining db d = 0))"

text \<open>
  Claim C6 uses how the classes of the database lie to each other beyond ASCII: a
  whitespace character is neither alphanumeric nor a decimal digit, and a decimal digit is
  alphanumeric and its own lower case. Unicode has it so for each of its code points
  (\<^verbatim>\<open>str.isalnum\<close> is true wherever \<^verbatim>\<open>str.isdecimal\<close> is, by its definition).
\<close>

definition classes_consistent :: "ucd \<Rightarrow> bool" where
  "classes_consistent db =
     (\<forall>c. 128 \<le> c \<longrightarrow>
        (uc_isspace db c \<longrightarrow> \<not> uc_isalnum db c \<and> \<not> uc_isdecimal db c)
        \<and> (uc_isdecimal db c \<longrightarrow>
              uc_isalnum db c \<and> (\<forall>pre post. uc_lower db pre c post = [c])))"

subsection \<open>An excerpt of the Unicode Character Database\<close>

text \<open>
  The concrete scenarios with characters beyond ASCII are evaluated with the rows of the
  database for the characters below, as Unicode 14 (Python 3.11) has them. The whitespace
  column is complete. In the other columns a row that is not listed is a placeholder that
  no statement below reads.

  \<^item> the nineteen whitespace characters beyond ASCII: U+0085 (133), U+00A0 (160),
    U+1680 (5760), U+2000 to U+200A (8192 to 8202), U+2028 (8232), U+2029 (8233),
    U+202F (8239), U+205F (8287), U+3000 (12288); of these U+00A0, U+2000 to U+200A,
    U+202F, U+205F and U+3000 decompose to U+0020, the others have no decomposition;
  \<^item> U+00C9 (201) \<^verbatim>\<open>E\<close> with acute: lower case U+00E9, decomposes to U+0045 U+0301;
  \<^item> U+00D6 (214) \<^verbatim>\<open>O\<close> with diaeresis: lower case U+00F6, decomposes to U+004F U+0308;
  \<^item> U+00DF (223) sharp s: a letter, its own lower case, no decomposition;
  \<^item> U+00E9 (233) \<^verbatim>\<open>e\<close> with acute: decomposes to U+0065 U+0301;
  \<^item> U+00F6 (246) \<^verbatim>\<open>o\<close> with diaeresis: decomposes to U+006F U+0308;
  \<^item> U+0301 (769), U+0308 (776) combining acute and diaeresis: combining class 230,
    not alphanumeric;
  \<^item> U+0663 (1635) ARABIC-INDIC DIGIT THREE: a decimal digit, alphanumeric, its own lower
    case, no decomposition;
  \<^item> U+2122 (8482) TRADE MARK SIGN: a symbol without case, decomposes to U+0054 U+004D
    (\<^verbatim>\<open>TM\<close>).
\<close>

definition ucd_excerpt :: ucd where
  "ucd_excerpt = \<lparr>
     uc_lower = (\<lambda>pre c post. if c = 201 then [233] else if c = 214 then [246] else [c]),
     uc_decomp = (\<lambda>c. if c = 201 then [69, 769] else if c = 233 then [101, 769]
                      else if c = 214 then [79, 776] else if c = 246 then [111, 776]
                      else if c = 160 \<or> (8192 \<le> c \<and> c \<le> 8202) \<or> c = 8239 \<or> c = 8287
                              \<or> c = 12288 then [32]
                      else if c = 8482 then [84, 77] else [c]),
     uc_combining = (\<lambda>c. if c = 769 \<or> c = 776 then 230 else 0),
     uc_isalnum = (\<lambda>c. c = 201 \<or> c = 214 \<or> c = 223 \<or> c = 233 \<or> c = 246 \<or> c = 1635),
     uc_isspace = (\<lambda>c. c = 133 \<or> c = 160 \<or> c = 5760 \<or> (8192 \<le> c \<and> c \<le> 8202)
                       \<or> c = 8232 \<or> c = 8233 \<or> c = 8239 \<or> c = 8287 \<or> c = 12288),
     uc_isdecimal = (\<lambda>c. c = 1635) \<rparr>"

section \<open>Properties\<close>

subsection \<open>Substitution of single characters\<close>

lemma re_scan_One:
  "re_scan db (One cs) prev s = map (\<lambda>c. if cset_mem db cs c then Hit [c] else Lit c) s"
  by (induction s arbitrary: prev) (auto simp: match_here_def prev_after_def)

lemma re_sub_One:
  "re_sub db (One cs) repl s = concat (map (\<lambda>c. if cset_mem db cs c then repl [c] else [c]) s)"
  unfolding re_sub_def re_scan_One by (induction s) auto

lemma strip_non_alnum:
  "re_sub db non_alnum_pattern (\<lambda>m. []) s = filter lower_alnum s"
  unfolding re_sub_One non_alnum_pattern_def
  by (induction s) (auto simp: lower_alnum_def lower_az_def digit_09_def)

lemma replace_special_map:
  "replace_special db s = map (\<lambda>c. if py_isword db c \<or> py_isspace db c then c else 32) s"
  unfolding replace_special_def re_sub_One special_pattern_def
  by (induction s) auto

lemma standard_neq_alphanumeric: "standard \<noteq> alphanumeric"
  by (simp add: standard_def alphanumeric_def u_def)

lemma search_form_Nil: "search_form db [] = []"
  by (simp add: search_form_def strip_accents_def nfkd_def decompose_def collapse_dots_def
      replace_special_map re_sub_def py_split.simps collapse_whitespace_def py_strip_def)

lemma process_str:
  "process_brand_for_search db (PyStr s) mode =
     Inr (if mode = alphanumeric then filter lower_alnum (search_form db (py_lower db s))
          else search_form db (py_lower db s))"
  by (cases s)
     (simp_all add: process_brand_for_search_def str_lower_def Let_def alphanumeric_def
        strip_non_alnum py_lower_def search_form_Nil)

subsection \<open>Words of a text\<close>

lemma py_split_Nil [simp]: "py_split db [] = []"
  by (simp add: py_split.simps)

lemma py_split_space [simp]: "py_isspace db c \<Longrightarrow> py_split db (c # s) = py_split db s"
  by (subst py_split.simps, subst (2) py_split.simps) simp

lemma py_split_spaces: "list_all (py_isspace db) X \<Longrightarrow> py_split db (X @ s) = py_split db s"
  by (induction X) simp_all

lemma py_split_all_space: "list_all (py_isspace db) X \<Longrightarrow> py_split db X = []"
  using py_split_spaces [of db X "[]"] by simp

lemma py_split_token:
  assumes "token db t" and "Y = [] \<or> py_isspace db (hd Y)"
  shows "py_split db (t @ Y) = t # py_split db Y"
proof -
  from assms(1) obtain c cs where t: "t = c # cs" and c: "\<not> py_isspace db c"
    and all: "\<forall>x\<in>set t. \<not> py_isspace db x"
    by (cases t) (auto simp: token_def list_all_iff)
  have d: "dropWhile (py_isspace db) (t @ Y) = t @ Y"
    using c by (simp add: t)
  have tY: "takeWhile (\<lambda>c. \<not> py_isspace db c) Y = []"
    using assms(2) by (cases Y) auto
  have dY: "dropWhile (\<lambda>c. \<not> py_isspace db c) Y = Y"
    using assms(2) by (cases Y) auto
  have tk: "takeWhile (\<lambda>c. \<not> py_isspace db c) (t @ Y) = t"
    using all tY by (simp add: takeWhile_append2)
  have dr: "dropWhile (\<lambda>c. \<not> py_isspace db c) (t @ Y) = Y"
    using all dY by (simp add: dropWhile_append2)
  have ne: "t @ Y \<noteq> []" by (simp add: t)
  show ?thesis
    by (subst py_split.simps) (simp only: d tk dr Let_def ne if_False)
qed

text \<open>Every text is whitespace only, or some whitespace, a first word and a rest.\<close>

lemma text_cases:
  obtains (blank) "list_all (py_isspace db) s"
  | (word) lead tok rest where "s = lead @ tok @ rest" "list_all (py_isspace db) lead"
      "token db tok" "rest = [] \<or> py_isspace db (hd rest)"
proof -
  define lead where "lead = takeWhile (py_isspace db) s"
  define s' where "s' = dropWhile (py_isspace db) s"
  define tok where "tok = takeWhile (\<lambda>c. \<not> py_isspace db c) s'"
  define rest where "rest = dropWhile (\<lambda>c. \<not> py_isspace db c) s'"
  have s: "s = lead @ tok @ rest"
    by (simp add: lead_def tok_def rest_def s'_def)
  have lead: "list_all (py_isspace db) lead"
    by (auto simp: lead_def list_all_iff dest: set_takeWhileD)
  have rest: "rest = [] \<or> py_isspace db (hd rest)"
    using hd_dropWhile [of "\<lambda>c. \<not> py_isspace db c" s'] by (auto simp: rest_def)
  show thesis
  proof (cases "s' = []")
    case True
    then have "s = lead" by (simp add: s tok_def rest_def)
    with lead blank show ?thesis by simp
  next
    case False
    then have "\<not> py_isspace db (hd s')"
      using hd_dropWhile [of "py_isspace db" s] by (simp add: s'_def)
    with False have "tok \<noteq> []" by (cases s') (auto simp: tok_def)
    moreover have "\<forall>x\<in>set tok. \<not> py_isspace db x"
      unfolding tok_def by (auto dest: set_takeWhileD)
    ultimately have "token db tok" by (simp add: token_def list_all_iff)
    with s lead rest word show ?thesis by blast
  qed
qed

lemma py_split_word:
  assumes "list_all (py_isspace db) lead" "token db tok" "rest = [] \<or> py_isspace db (hd rest)"
  shows "py_split db (lead @ tok @ rest) = tok # py_split db rest"
  using assms by (simp add: py_split_spaces py_split_token)

lemma py_split_tokens: "w \<in> set (py_split db s) \<Longrightarrow> token db w"
proof (induction s rule: length_induct)
  case (1 s)
  show ?case
  proof (cases rule: text_cases [of db s])
    case blank
    with 1(2) show ?thesis by (simp add: py_split_all_space)
  next
    case (word lead tok rest)
    from word(3) have "tok \<noteq> []" by (simp add: token_def)
    then have len: "length rest < length s" by (simp add: word(1))
    from 1(2) word have "w = tok \<or> w \<in> set (py_split db rest)"
      by (simp add: py_split_word)
    with 1(1) len word(3) show ?thesis by blast
  qed
qed

lemma py_split_occurs:
  "w \<in> set (py_split db s) \<Longrightarrow> \<exists>X Y. s = X @ w @ Y \<and> delimited db X Y"
proof (induction s rule: length_induct)
  case (1 s)
  show ?case
  proof (cases rule: text_cases [of db s])
    case blank
    with 1(2) show ?thesis by (simp add: py_split_all_space)
  next
    case (word lead tok rest)
    from word(3) have tokne: "tok \<noteq> []" by (simp add: token_def)
    then have len: "length rest < length s" by (simp add: word(1))
    have lead: "lead = [] \<or> py_isspace db (last lead)"
    proof (cases "lead = []")
      case False
      then have "last lead \<in> set lead" by (rule last_in_set)
      with word(2) show ?thesis by (simp add: list_all_iff)
    qed simp
    from 1(2) word have "w = tok \<or> w \<in> set (py_split db rest)"
      by (simp add: py_split_word)
    then show ?thesis
    proof
      assume "w = tok"
      with word lead show ?thesis by (auto simp: delimited_def)
    next
      assume w: "w \<in> set (py_split db rest)"
      with 1(1) len obtain X Y where XY: "rest = X @ w @ Y" "delimited db X Y"
        by blast
      from w have tk: "token db w" by (rule py_split_tokens)
      have "X \<noteq> []"
      proof
        assume "X = []"
        with XY word(4) tk show False
          by (cases w) (auto simp: token_def)
      qed
      with XY have "s = (lead @ tok @ X) @ w @ Y" "delimited db (lead @ tok @ X) Y"
        by (auto simp: word(1) delimited_def)
      then show ?thesis by blast
    qed
  qed
qed

lemma py_split_append:
  "X = [] \<or> py_isspace db (last X) \<Longrightarrow> py_split db (X @ s) = py_split db X @ py_split db s"
proof (induction X rule: length_induct)
  case (1 X)
  show ?case
  proof (cases rule: text_cases [of db X])
    case blank
    then show ?thesis by (simp add: py_split_all_space py_split_spaces)
  next
    case (word lead tok rest)
    from word(3) have tokne: "tok \<noteq> []" and toklast: "\<not> py_isspace db (last tok)"
      by (auto simp: token_def list_all_iff)
    then have len: "length rest < length X" by (simp add: word(1))
    have restne: "rest \<noteq> []"
      using 1(2) tokne toklast by (auto simp: word(1))
    then have "py_isspace db (last rest)"
      using 1(2) by (auto simp: word(1))
    with 1(1) len have ih: "py_split db (rest @ s) = py_split db rest @ py_split db s"
      by blast
    have "rest @ s = [] \<or> py_isspace db (hd (rest @ s))"
      using word(4) restne by simp
    then have "py_split db (lead @ tok @ (rest @ s)) = tok # py_split db (rest @ s)"
      using word by (intro py_split_word)
    then show ?thesis
      using word by (simp add: ih py_split_word)
  qed
qed

lemma occurs_py_split:
  assumes "token db w" and "delimited db X Y"
  shows "w \<in> set (py_split db (X @ w @ Y))"
proof -
  have "py_split db (X @ w @ Y) = py_split db X @ py_split db (w @ Y)"
    using assms(2) by (intro py_split_append) (simp add: delimited_def)
  also have "py_split db (w @ Y) = w # py_split db Y"
    using assms by (intro py_split_token) (simp_all add: delimited_def)
  finally show ?thesis by simp
qed

lemma space_32 [simp]: "py_isspace db 32"
  by (simp add: py_isspace_def)

lemma py_split_join:
  "list_all (token db) ts \<Longrightarrow> py_split db (py_join [32] ts) = ts"
proof (induction ts rule: induct_list012)
  case 1
  then show ?case by simp
next
  case (2 x)
  then show ?case using py_split_token [of db x "[]"] by simp
next
  case (3 x y ys)
  from 3 have "py_split db (x @ 32 # py_join [32] (y # ys))
      = x # py_split db (32 # py_join [32] (y # ys))"
    by (intro py_split_token) simp_all
  with 3 show ?case by simp
qed

subsection \<open>The matcher\<close>

lemma rmatch_le: "k \<in> set (rmatch db r prev s) \<Longrightarrow> k \<le> length s"
proof (induction r arbitrary: prev s k)
  case (One cs)
  then show ?case by (cases s) (auto split: if_splits)
next
  case (ZeroOrMore cs)
  have "length (takeWhile (cset_mem db cs) s) \<le> length s"
    by (rule length_takeWhile_le)
  with ZeroOrMore show ?case by auto
next
  case (OneOrMore cs)
  have "length (takeWhile (cset_mem db cs) s) \<le> length s"
    by (rule length_takeWhile_le)
  with OneOrMore show ?case by auto
next
  case (Then a b)
  from Then.prems obtain i j where i: "i \<in> set (rmatch db a prev s)"
    and j: "j \<in> set (rmatch db b (prev_after prev s i) (drop i s))" and k: "k = i + j"
    by auto
  from Then.IH(1) [OF i] Then.IH(2) [OF j] show ?case by (simp add: k)
next
  case (Either a b)
  then show ?case by auto
next
  case WordBoundary
  then show ?case by (auto split: if_splits)
qed

lemma rmatch_prev:
  "boundary_free r \<Longrightarrow> rmatch db r prev s = rmatch db r prev' s"
proof (induction r arbitrary: prev prev' s)
  case (Then a b)
  then have a: "rmatch db a prev s = rmatch db a prev' s"
    and b: "\<And>p q t. rmatch db b p t = rmatch db b q t"
    by auto
  have "rmatch db b (prev_after prev s k) (drop k s)
      = rmatch db b (prev_after prev' s k) (drop k s)" for k
    by (rule b)
  then show ?case by (simp add: a)
next
  case (Either a b)
  then have "rmatch db a prev s = rmatch db a prev' s" "rmatch db b prev s = rmatch db b prev' s"
    by auto
  then show ?case by simp
qed simp_all

lemma match_here_prev:
  "boundary_free r \<Longrightarrow> match_here db r prev s = match_here db r prev' s"
  by (simp add: match_here_def rmatch_prev [of r db prev s prev'])

lemma re_scan_prev:
  "boundary_free r \<Longrightarrow> re_scan db r prev s = re_scan db r prev' s"
proof (induction db r prev s arbitrary: prev' rule: re_scan.induct)
  case (1 db r prev)
  then show ?case by simp
next
  case (2 db r prev c cs)
  note m = match_here_prev [OF 2(4), of db prev "c # cs" prev']
  show ?case
  proof (cases "match_here db r prev (c # cs)")
    case None
    with 2(1) [OF None 2(4)] m show ?thesis by simp
  next
    case (Some k)
    show ?thesis
    proof (cases "k = 0")
      case True
      with 2(2) [OF Some True 2(4)] Some m show ?thesis by simp
    next
      case False
      with 2(3) [OF Some False 2(4)] Some m show ?thesis by simp
    qed
  qed
qed

lemma prev_after_append:
  "k \<le> length a \<Longrightarrow> prev_after prev (a @ b) k = prev_after prev a k"
  by (simp add: prev_after_def)

lemma rmatch_barrier:
  "rejects db r c \<Longrightarrow> rmatch db r prev (a @ c # b) = rmatch db r prev a"
proof (induction r arbitrary: prev a)
  case (One cs)
  then show ?case by (cases a) auto
next
  case (ZeroOrMore cs)
  then have "takeWhile (cset_mem db cs) (a @ c # b) = takeWhile (cset_mem db cs) a"
    by (induction a) auto
  then show ?case by simp
next
  case (OneOrMore cs)
  then have "takeWhile (cset_mem db cs) (a @ c # b) = takeWhile (cset_mem db cs) a"
    by (induction a) auto
  then show ?case by simp
next
  case (Then x y)
  then have x: "rmatch db x prev (a @ c # b) = rmatch db x prev a"
    and y: "\<And>p t. rmatch db y p (t @ c # b) = rmatch db y p t"
    by auto
  have "map (\<lambda>k. map (\<lambda>j. k + j)
               (rmatch db y (prev_after prev (a @ c # b) k) (drop k (a @ c # b))))
          (rmatch db x prev a)
      = map (\<lambda>k. map (\<lambda>j. k + j) (rmatch db y (prev_after prev a k) (drop k a)))
          (rmatch db x prev a)"
  proof (rule map_cong [OF refl])
    fix k assume "k \<in> set (rmatch db x prev a)"
    then have k: "k \<le> length a" by (rule rmatch_le)
    then have "prev_after prev (a @ c # b) k = prev_after prev a k"
      by (rule prev_after_append)
    moreover have "drop k (a @ c # b) = drop k a @ c # b"
      using k by simp
    ultimately show "map (\<lambda>j. k + j)
               (rmatch db y (prev_after prev (a @ c # b) k) (drop k (a @ c # b)))
         =  map (\<lambda>j. k + j) (rmatch db y (prev_after prev a k) (drop k a))"
      by (simp only: y)
  qed
  then show ?case by (simp only: rmatch.simps x)
next
  case (Either x y)
  then show ?case by simp
next
  case WordBoundary
  then show ?case by simp
qed

lemma match_here_le: "match_here db r prev s = Some k \<Longrightarrow> k \<le> length s"
  using rmatch_le [of k db r prev s]
  by (auto simp: match_here_def split: list.splits)

lemma rejects_boundary_free: "rejects db r c \<Longrightarrow> boundary_free r"
  by (induction r) auto

lemma re_scan_barrier:
  "rejects db r c \<Longrightarrow>
     re_scan db r prev (a @ c # b) = re_scan db r prev a @ Lit c # re_scan db r (Some c) b"
proof (induction db r prev a rule: re_scan.induct)
  case (1 db r prev)
  have "match_here db r prev (c # b) = match_here db r prev []"
    using rmatch_barrier [OF 1, of prev "[]" b] by (simp add: match_here_def)
  moreover have "match_here db r prev [] = None \<or> match_here db r prev [] = Some 0"
    using match_here_le [of db r prev "[]"] by (cases "match_here db r prev []") auto
  ultimately show ?case by auto
next
  case (2 db r prev x xs)
  have m: "match_here db r prev ((x # xs) @ c # b) = match_here db r prev (x # xs)"
    using rmatch_barrier [OF 2(4), of prev "x # xs" b] by (simp add: match_here_def)
  show ?case
  proof (cases "match_here db r prev (x # xs)")
    case None
    with 2(1) [OF None 2(4)] m show ?thesis by simp
  next
    case (Some k)
    show ?thesis
    proof (cases "k = 0")
      case True
      with 2(2) [OF Some True 2(4)] Some m show ?thesis by simp
    next
      case False
      from Some have k: "k \<le> length (x # xs)" by (rule match_here_le)
      then have "prev_after prev ((x # xs) @ c # b) k = prev_after prev (x # xs) k"
        by (rule prev_after_append)
      moreover have "drop k ((x # xs) @ c # b) = drop k (x # xs) @ c # b"
        using k by (simp only: drop_append) simp
      moreover have "take k ((x # xs) @ c # b) = take k (x # xs)"
        using k by (simp only: take_append) simp
      moreover have "re_scan db r prev ((x # xs) @ c # b)
          = Hit (take k ((x # xs) @ c # b))
              # re_scan db r (prev_after prev ((x # xs) @ c # b) k) (drop k ((x # xs) @ c # b))"
        using m Some False by simp
      moreover have "re_scan db r prev (x # xs)
          = Hit (take k (x # xs)) # re_scan db r (prev_after prev (x # xs) k) (drop k (x # xs))"
        using Some False by simp
      ultimately show ?thesis
        using 2(3) [OF Some False 2(4)] by simp
    qed
  qed
qed

lemma re_sub_barrier:
  assumes "rejects db r c"
  shows "re_sub db r f (a @ c # b) = re_sub db r f a @ c # re_sub db r f b"
proof -
  have "re_scan db r (Some c) b = re_scan db r None b"
    using assms by (intro re_scan_prev rejects_boundary_free)
  then show ?thesis
    by (simp add: re_sub_def re_scan_barrier [OF assms])
qed

lemma re_sub_Nil [simp]: "re_sub db r f [] = []"
  by (simp add: re_sub_def)

lemma re_sub_all_rejected:
  "list_all (rejects db r) t \<Longrightarrow> re_sub db r f (t @ s) = t @ re_sub db r f s"
proof (induction t)
  case (Cons c t)
  then show ?case using re_sub_barrier [of db r c f "[]" "t @ s"] by simp
qed simp

subsection \<open>The patterns of the program\<close>

lemma set_rmatch_Then:
  "k \<in> set (rmatch db (Then a b) prev s) \<longleftrightarrow>
     (\<exists>i j. k = i + j \<and> i \<in> set (rmatch db a prev s)
            \<and> j \<in> set (rmatch db b (prev_after prev s i) (drop i s)))"
  by auto

lemma set_rmatch_OneOrMore:
  "k \<in> set (rmatch db (OneOrMore cs) prev s) \<longleftrightarrow>
     1 \<le> k \<and> k \<le> length (takeWhile (cset_mem db cs) s)"
  by auto

lemma set_rmatch_One:
  "k \<in> set (rmatch db (One cs) prev s) \<longleftrightarrow> k = 1 \<and> s \<noteq> [] \<and> cset_mem db cs (hd s)"
  by (cases s) auto

text \<open>No pattern of the program matches the empty text.\<close>

lemma rmatch_nonempty:
  "0 \<notin> set (rmatch db model_pattern prev s)"
  "0 \<notin> set (rmatch db special_pattern prev s)"
  "0 \<notin> set (rmatch db model_number_pattern prev s)"
  "0 \<notin> set (rmatch db whitespace_pattern prev s)"
  "0 \<notin> set (rmatch db non_alnum_pattern prev s)"
  unfolding model_pattern_def special_pattern_def model_number_pattern_def
    whitespace_pattern_def non_alnum_pattern_def
  by (simp_all only: set_rmatch_Then set_rmatch_OneOrMore set_rmatch_One
        rmatch.simps set_append Un_iff) auto

subsection \<open>Abbreviations: no dot, no change\<close>

lemma space_rejected_by_model_pattern:
  "py_isspace db c \<Longrightarrow> rejects db model_pattern c"
  by (auto simp: model_pattern_def lower_az_def digit_09_def dot_def py_isspace_def
      split: if_splits)

lemma Then_no_left: "rmatch db a prev s = [] \<Longrightarrow> rmatch db (Then a b) prev s = []"
  by simp

lemma Then_no_right:
  "(\<And>k p. rmatch db b p (drop k s) = []) \<Longrightarrow> rmatch db (Then a b) prev s = []"
  by simp

lemma no_dot_here: "46 \<notin> set s \<Longrightarrow> rmatch db (One dot) p (drop k s) = []"
proof -
  assume a: "46 \<notin> set s"
  have "set (drop k s) \<subseteq> set s" by (rule set_drop_subset)
  with a have "46 \<notin> set (drop k s)" by blast
  then show ?thesis by (cases "drop k s") (auto simp: dot_def)
qed

lemma model_pattern_needs_dot:
  assumes "46 \<notin> set s"
  shows "match_here db model_pattern prev s = None"
proof -
  have 1: "rmatch db (Then (OneOrMore lower_az) (One dot)) prev s = []"
    by (rule Then_no_right) (rule no_dot_here [OF assms])
  have 2: "rmatch db (Then (One lower_az) (One dot)) prev s = []"
    by (rule Then_no_right) (rule no_dot_here [OF assms])
  have "rmatch db model_pattern prev s = []"
    unfolding model_pattern_def rmatch.simps(5)
    by (simp only: Then_no_left [OF 1] Then_no_left [OF 2] append_Nil)
  then show ?thesis by (simp add: match_here_def)
qed

lemma re_scan_no_dot:
  "46 \<notin> set s \<Longrightarrow> re_scan db model_pattern prev s = map Lit s"
  by (induction s arbitrary: prev) (simp_all add: model_pattern_needs_dot)

lemma collapse_dots_no_dot: "46 \<notin> set s \<Longrightarrow> collapse_dots db s = s"
  by (simp add: collapse_dots_def re_sub_def re_scan_no_dot) (induction s, auto)

lemma collapse_dots_barrier:
  "py_isspace db c \<Longrightarrow>
     collapse_dots db (a @ c # b) = collapse_dots db a @ c # collapse_dots db b"
  unfolding collapse_dots_def
  by (rule re_sub_barrier) (rule space_rejected_by_model_pattern)

subsection \<open>Whitespace between words\<close>

lemma nonspace_rejected: "\<not> py_isspace db c \<Longrightarrow> rejects db whitespace_pattern c"
  by (simp add: whitespace_pattern_def)

lemma collapse_space_before_word:
  assumes "\<not> py_isspace db y"
  shows "re_sub db whitespace_pattern (\<lambda>m. [32]) (32 # y # s)
           = 32 # re_sub db whitespace_pattern (\<lambda>m. [32]) (y # s)"
proof -
  have tw: "takeWhile (py_isspace db) (32 # y # s) = [32]"
    by (simp add: assms)
  have eq: "cset_mem db CSpace = py_isspace db"
    by (rule ext) simp
  have "rmatch db whitespace_pattern None (32 # y # s) = [1]"
    by (simp only: whitespace_pattern_def rmatch.simps eq tw) simp
  then have "match_here db whitespace_pattern None (32 # y # s) = Some 1"
    by (simp add: match_here_def)
  moreover have "boundary_free whitespace_pattern"
    by (simp add: whitespace_pattern_def)
  then have "re_scan db whitespace_pattern (Some 32) (y # s)
      = re_scan db whitespace_pattern None (y # s)"
    by (rule re_scan_prev)
  ultimately show ?thesis
    by (simp add: re_sub_def prev_after_def)
qed

lemma hd_py_join: "ts \<noteq> [] \<Longrightarrow> hd ts \<noteq> [] \<Longrightarrow> hd (py_join sep ts) = hd (hd ts)"
  by (induction sep ts rule: py_join.induct) auto

lemma last_py_join:
  "ts \<noteq> [] \<Longrightarrow> last ts \<noteq> [] \<Longrightarrow>
     py_join sep ts \<noteq> [] \<and> last (py_join sep ts) = last (last ts)"
  by (induction sep ts rule: py_join.induct) auto

lemma py_join_Nil_iff: "list_all (token db) ts \<Longrightarrow> py_join sep ts = [] \<longleftrightarrow> ts = []"
  by (induction sep ts rule: py_join.induct) (auto simp: token_def)

lemma token_rejected: "token db t \<Longrightarrow> list_all (rejects db whitespace_pattern) t"
  by (simp add: token_def list_all_iff nonspace_rejected)

lemma re_sub_whitespace_join:
  "list_all (token db) ts \<Longrightarrow>
     re_sub db whitespace_pattern (\<lambda>m. [32]) (py_join [32] ts) = py_join [32] ts"
proof (induction ts rule: induct_list012)
  case 1
  then show ?case by simp
next
  case (2 x)
  then show ?case
    using re_sub_all_rejected [OF token_rejected, of db x _ "[]"] by simp
next
  case (3 x y ys)
  from 3(3) have x: "token db x" and y: "token db y" and ys: "list_all (token db) (y # ys)"
    by simp_all
  from y have "py_join [32] (y # ys) \<noteq> []"
    using py_join_Nil_iff [OF ys, of "[32]"] by simp
  moreover have "hd (py_join [32] (y # ys)) = hd y"
    using y hd_py_join [of "y # ys" "[32]"] by (simp add: token_def)
  moreover have "\<not> py_isspace db (hd y)"
    using y by (cases y) (auto simp: token_def)
  ultimately obtain c cs where j: "py_join [32] (y # ys) = c # cs" and c: "\<not> py_isspace db c"
    by (cases "py_join [32] (y # ys)") auto
  have "re_sub db whitespace_pattern (\<lambda>m. [32]) (x @ 32 # c # cs)
      = x @ re_sub db whitespace_pattern (\<lambda>m. [32]) (32 # c # cs)"
    by (rule re_sub_all_rejected [OF token_rejected [OF x]])
  also have "\<dots> = x @ 32 # re_sub db whitespace_pattern (\<lambda>m. [32]) (c # cs)"
    by (simp add: collapse_space_before_word [OF c])
  finally show ?case
    using 3(2) [OF ys] by (simp add: j)
qed

lemma py_strip_id:
  "s = [] \<or> (\<not> py_isspace db (hd s) \<and> \<not> py_isspace db (last s)) \<Longrightarrow> py_strip db s = s"
proof (cases s)
  case Nil
  then show ?thesis by (simp add: py_strip_def)
next
  case (Cons c cs)
  assume "s = [] \<or> (\<not> py_isspace db (hd s) \<and> \<not> py_isspace db (last s))"
  with Cons have h: "\<not> py_isspace db c" and l: "\<not> py_isspace db (last s)" by auto
  have "dropWhile (py_isspace db) s = s" using h by (simp add: Cons)
  moreover have "dropWhile (py_isspace db) (rev s) = rev s"
  proof (cases "rev s")
    case Nil
    then show ?thesis by simp
  next
    case (Cons a as)
    have "hd (rev s) = last s" by (rule hd_rev)
    with Cons l show ?thesis by simp
  qed
  ultimately show ?thesis by (simp add: py_strip_def)
qed

lemma collapse_whitespace_join:
  assumes "list_all (token db) ts"
  shows "collapse_whitespace db (py_join [32] ts) = py_join [32] ts"
proof (cases "ts = []")
  case True
  then show ?thesis by (simp add: collapse_whitespace_def py_strip_def)
next
  case False
  from assms False have h: "token db (hd ts)" and l: "token db (last ts)"
    by (auto simp: list_all_iff)
  then have "hd (py_join [32] ts) = hd (hd ts)" "last (py_join [32] ts) = last (last ts)"
    using False by (simp_all add: hd_py_join last_py_join token_def)
  moreover have "\<not> py_isspace db (hd (hd ts))" "\<not> py_isspace db (last (last ts))"
    using h l by (auto simp: token_def list_all_iff)
  ultimately have "py_strip db (py_join [32] ts) = py_join [32] ts"
    by (intro py_strip_id) simp
  then show ?thesis
    by (simp add: collapse_whitespace_def re_sub_whitespace_join [OF assms])
qed

subsection \<open>Model numbers\<close>

lemma re_scan_Hit:
  "Hit m \<in> set (re_scan db r prev s) \<Longrightarrow>
     \<exists>p t k. k \<in> set (rmatch db r p t) \<and> m = take k t"
proof (induction db r prev s rule: re_scan.induct)
  case (1 db r prev)
  then show ?case by simp
next
  case (2 db r prev c cs)
  show ?case
  proof (cases "match_here db r prev (c # cs)")
    case None
    with 2 show ?thesis by auto
  next
    case (Some k)
    then have k: "k \<in> set (rmatch db r prev (c # cs))"
      by (auto simp: match_here_def split: list.splits)
    show ?thesis
    proof (cases "k = 0")
      case True
      with 2 Some show ?thesis by auto
    next
      case False
      with 2(4) Some have "m = take k (c # cs)
          \<or> Hit m \<in> set (re_scan db r (prev_after prev (c # cs) k) (drop k (c # cs)))"
        by auto
      with k 2(3) [OF Some False] show ?thesis by blast
    qed
  qed
qed

lemma model_number_has_digit:
  assumes "k \<in> set (rmatch db model_number_pattern p t)"
  shows "\<exists>c\<in>set (take k t). py_isdecimal db c"
proof -
  from assms obtain i0 i1 i2 j p' where
      k: "k = i0 + (i1 + (i2 + j))"
    and i0: "i0 \<in> set (rmatch db WordBoundary p t)"
    and i2: "i2 \<in> set (rmatch db (OneOrMore CDigit) p' (drop i1 (drop i0 t)))"
    unfolding model_number_pattern_def set_rmatch_Then by blast
  from i0 have [simp]: "i0 = 0" by (auto split: if_splits)
  define d where "d = drop i1 t"
  have "cset_mem db CDigit = py_isdecimal db"
    by (rule ext) simp
  with i2 have "1 \<le> length (takeWhile (py_isdecimal db) d)"
    by (auto simp: d_def)
  then obtain c cs where d: "d = c # cs" and c: "py_isdecimal db c"
    by (cases d) (auto split: if_splits)
  have "i1 < length t"
  proof (rule ccontr)
    assume "\<not> i1 < length t"
    then have "drop i1 t = []" by simp
    with d show False by (simp add: d_def)
  qed
  moreover have "t ! i1 = c"
    using d hd_drop_conv_nth [of i1 t] \<open>i1 < length t\<close> by (simp add: d_def)
  moreover have "i1 < k" using i2 by (auto simp: k)
  ultimately have "c \<in> set (take k t)"
    by (auto simp: in_set_conv_nth intro!: exI [of _ i1])
  with c show ?thesis by blast
qed

lemma model_numbers_digit:
  "m \<in> model_numbers db s \<Longrightarrow> \<exists>c\<in>set m. py_isdecimal db c"
proof -
  assume "m \<in> model_numbers db s"
  then have "Hit m \<in> set (re_scan db model_number_pattern None s)"
    by (auto simp: model_numbers_def re_findall_def split: piece.splits)
  then obtain p t k where "k \<in> set (rmatch db model_number_pattern p t)" "m = take k t"
    using re_scan_Hit by blast
  then show ?thesis using model_number_has_digit by blast
qed

subsection \<open>The loop\<close>

lemma filter_words_filter:
  "filter_words db common preserved mn words acc =
     acc @ filter (\<lambda>w. py_lower db w \<notin> common \<or> py_lower db w \<in> preserved
                        \<or> py_lower db w \<in> mn) words"
  by (induction words arbitrary: acc) (simp_all add: Let_def)

subsection \<open>Lower case\<close>

lemma py_lower_from_ascii:
  "list_all (\<lambda>c. c < 128) w \<Longrightarrow>
     py_lower_from db pre (w @ Y) = map ascii_lower w @ py_lower_from db (pre @ w) Y"
  by (induction w arbitrary: pre) simp_all

lemma py_lower_ascii: "list_all (\<lambda>c. c < 128) w \<Longrightarrow> py_lower db w = map ascii_lower w"
  using py_lower_from_ascii [of w db "[]" "[]"] by (simp add: py_lower_def)

lemma uc_isspace_stable:
  assumes "whitespace_stable db" "py_isspace db c" "\<not> c < 128"
  shows "uc_lower db pre c post = [c]" "uc_decomp db c \<noteq> []"
    "\<forall>d\<in>set (uc_decomp db c). py_isspace db d \<and> py_combining db d = 0"
proof -
  from assms(2,3) have "128 \<le> c \<and> uc_isspace db c"
    by (simp add: py_isspace_def)
  with assms(1) show "uc_lower db pre c post = [c]" "uc_decomp db c \<noteq> []"
    "\<forall>d\<in>set (uc_decomp db c). py_isspace db d \<and> py_combining db d = 0"
    unfolding whitespace_stable_def by blast+
qed

lemma py_lower_from_space:
  assumes "whitespace_stable db" "py_isspace db c"
  shows "py_lower_from db pre (c # s) = c # py_lower_from db (pre @ [c]) s"
proof (cases "c < 128")
  case True
  with assms(2) have "ascii_lower c = c"
    by (auto simp: py_isspace_def ascii_lower_def)
  with True show ?thesis by simp
next
  case False
  with uc_isspace_stable(1) [OF assms False] show ?thesis by simp
qed

lemma lower_tail:
  assumes st: "whitespace_stable db" and Y: "Y = [] \<or> py_isspace db (hd Y)"
  shows "py_lower_from db p Y = [] \<or> py_isspace db (hd (py_lower_from db p Y))"
proof (cases Y)
  case Nil
  then show ?thesis by simp
next
  case (Cons c Y0)
  with Y have c: "py_isspace db c" by simp
  have "py_lower_from db p Y = c # py_lower_from db (p @ [c]) Y0"
    unfolding Cons by (rule py_lower_from_space [OF st c])
  with c show ?thesis by simp
qed

lemma lower_from_occurs:
  assumes st: "whitespace_stable db" and w: "list_all (\<lambda>c. c < 128) w"
    and Y: "Y = [] \<or> py_isspace db (hd Y)"
  shows "X = [] \<or> py_isspace db (last X) \<Longrightarrow>
     \<exists>X' Y'. py_lower_from db pre (X @ w @ Y) = X' @ map ascii_lower w @ Y'
        \<and> (X' = [] \<or> py_isspace db (last X')) \<and> (X \<noteq> [] \<longrightarrow> X' \<noteq> [])
        \<and> (Y' = [] \<or> py_isspace db (hd Y'))"
proof (induction X arbitrary: pre)
  case Nil
  have "py_lower_from db pre ([] @ w @ Y)
      = [] @ map ascii_lower w @ py_lower_from db (pre @ w) Y"
    by (simp add: py_lower_from_ascii [OF w])
  with lower_tail [OF st Y, of "pre @ w"] show ?case by blast
next
  case (Cons x X)
  show ?case
  proof (cases "X = []")
    case True
    with Cons.prems have x: "py_isspace db x" by simp
    have "py_lower_from db pre (x # (w @ Y)) = x # py_lower_from db (pre @ [x]) (w @ Y)"
      by (rule py_lower_from_space [OF st x])
    then have "py_lower_from db pre ((x # X) @ w @ Y)
        = [x] @ map ascii_lower w @ py_lower_from db ((pre @ [x]) @ w) Y"
      by (simp add: True py_lower_from_ascii [OF w] del: py_lower_from.simps)
    with x lower_tail [OF st Y, of "(pre @ [x]) @ w"] show ?thesis
      by (intro exI [of _ "[x]"] exI [of _ "py_lower_from db ((pre @ [x]) @ w) Y"]) simp
  next
    case False
    with Cons.prems have "py_isspace db (last X)" by simp
    with Cons.IH [of "pre @ [x]"] False obtain X' Y'
      where XY: "py_lower_from db (pre @ [x]) (X @ w @ Y) = X' @ map ascii_lower w @ Y'"
        "py_isspace db (last X')" "X' \<noteq> []" "Y' = [] \<or> py_isspace db (hd Y')"
      by auto
    define L where "L = (if x < 128 then [ascii_lower x] else uc_lower db pre x (X @ w @ Y))"
    have "py_lower_from db pre ((x # X) @ w @ Y) = (L @ X') @ map ascii_lower w @ Y'"
      by (simp add: L_def XY(1))
    with XY show ?thesis by (intro exI [of _ "L @ X'"] exI [of _ Y']) simp
  qed
qed

lemma lower_occurs:
  assumes st: "whitespace_stable db" and occ: "occurs db w s"
    and w: "list_all (\<lambda>c. c < 128) w"
  shows "occurs db (map ascii_lower w) (py_lower db s)"
proof -
  from occ obtain X Y where s: "s = X @ w @ Y" and d: "delimited db X Y"
    by (auto simp: occurs_def)
  from d have "Y = [] \<or> py_isspace db (hd Y)" "X = [] \<or> py_isspace db (last X)"
    by (simp_all add: delimited_def)
  from lower_from_occurs [OF st w this, of "[]"] show ?thesis
    unfolding occurs_def delimited_def py_lower_def s by blast
qed

subsection \<open>Diacritics\<close>

lemma filter_canonical_order:
  "filter (\<lambda>c. py_combining db c = 0) (canonical_order db s)
     = filter (\<lambda>c. py_combining db c = 0) s"
proof (induction db s rule: canonical_order.induct)
  case (1 db)
  then show ?case by simp
next
  case (2 db c cs)
  show ?case
  proof (cases "py_combining db c = 0")
    case True
    with 2 show ?thesis by simp
  next
    case False
    let ?Q = "\<lambda>x. py_combining db x \<noteq> 0"
    let ?P = "\<lambda>x. py_combining db x = 0"
    have run: "filter ?P (takeWhile ?Q (c # cs)) = []"
      by (auto simp: filter_empty_conv dest: set_takeWhileD)
    have "filter ?P (sort_key (py_combining db) (takeWhile ?Q (c # cs))) = []"
      by (auto simp: filter_empty_conv dest: set_takeWhileD)
    then have "filter ?P (canonical_order db (c # cs)) = filter ?P (dropWhile ?Q (c # cs))"
      using False 2(2) [OF False] by (simp del: takeWhile.simps dropWhile.simps)
    also have "\<dots> = filter ?P (takeWhile ?Q (c # cs) @ dropWhile ?Q (c # cs))"
      by (simp only: filter_append run append_Nil)
    finally show ?thesis by (simp only: takeWhile_dropWhile_id)
  qed
qed

lemma strip_accents_base: "strip_accents db s = base_chars db s"
  by (simp add: strip_accents_def nfkd_def filter_canonical_order base_chars_def)

lemma base_chars_append: "base_chars db (a @ b) = base_chars db a @ base_chars db b"
  by (simp add: base_chars_def decompose_def)

lemma base_chars_ascii: "list_all (\<lambda>c. c < 128) w \<Longrightarrow> base_chars db w = w"
  by (induction w) (simp_all add: base_chars_def decompose_def py_combining_def)

lemma base_chars_space:
  assumes "whitespace_stable db" "py_isspace db c"
  shows "base_chars db [c] \<noteq> [] \<and> list_all (py_isspace db) (base_chars db [c])"
proof (cases "c < 128")
  case True
  with assms(2) show ?thesis
    by (simp add: base_chars_def decompose_def py_combining_def)
next
  case False
  note ne = uc_isspace_stable(2) [OF assms False]
  note all = uc_isspace_stable(3) [OF assms False]
  from all have "filter (\<lambda>c. py_combining db c = 0) (uc_decomp db c) = uc_decomp db c"
    by (simp add: filter_id_conv)
  with False ne all show ?thesis
    by (simp add: base_chars_def decompose_def list_all_iff)
qed

lemma accents_occurs:
  assumes st: "whitespace_stable db" and occ: "occurs db t s"
    and t: "list_all (\<lambda>c. c < 128) t"
  shows "occurs db t (strip_accents db s)"
proof -
  from occ obtain X Y where s: "s = X @ t @ Y" and d: "delimited db X Y"
    by (auto simp: occurs_def)
  have "strip_accents db s = base_chars db X @ t @ base_chars db Y"
    by (simp add: strip_accents_base s base_chars_append base_chars_ascii [OF t])
  moreover have "base_chars db X = [] \<or> py_isspace db (last (base_chars db X))"
  proof (cases X rule: rev_cases)
    case Nil
    then show ?thesis by (simp add: base_chars_def decompose_def)
  next
    case (snoc X0 c)
    with d have c: "py_isspace db c" by (simp add: delimited_def)
    from base_chars_space [OF st c] have "last (base_chars db [c]) \<in> set (base_chars db [c])"
      and "list_all (py_isspace db) (base_chars db [c])" by simp_all
    then have "py_isspace db (last (base_chars db [c]))" by (simp add: list_all_iff)
    with base_chars_space [OF st c] show ?thesis
      by (simp add: snoc base_chars_append)
  qed
  moreover have "base_chars db Y = [] \<or> py_isspace db (hd (base_chars db Y))"
  proof (cases Y)
    case Nil
    then show ?thesis by (simp add: base_chars_def decompose_def)
  next
    case (Cons c Y0)
    with d have c: "py_isspace db c" by (simp add: delimited_def)
    from base_chars_space [OF st c] have "hd (base_chars db [c]) \<in> set (base_chars db [c])"
      and "list_all (py_isspace db) (base_chars db [c])" by simp_all
    then have "py_isspace db (hd (base_chars db [c]))" by (simp add: list_all_iff)
    moreover have "base_chars db Y = base_chars db [c] @ base_chars db Y0"
      using base_chars_append [of db "[c]" Y0] by (simp add: Cons)
    ultimately show ?thesis
      using base_chars_space [OF st c] by simp
  qed
  ultimately show ?thesis
    unfolding occurs_def delimited_def by blast
qed

subsection \<open>Abbreviations and punctuation\<close>

lemma dots_occurs:
  assumes occ: "occurs db t s" and t: "46 \<notin> set t"
  shows "occurs db t (collapse_dots db s)"
proof -
  from occ obtain X Y where s: "s = X @ t @ Y" and d: "delimited db X Y"
    by (auto simp: occurs_def)
  have right: "\<exists>Y'. collapse_dots db (t @ Y) = t @ Y' \<and> (Y' = [] \<or> py_isspace db (hd Y'))"
  proof (cases Y)
    case Nil
    then show ?thesis by (simp add: collapse_dots_no_dot [OF t])
  next
    case (Cons c Y0)
    with d have c: "py_isspace db c" by (simp add: delimited_def)
    have "collapse_dots db (t @ c # Y0) = t @ c # collapse_dots db Y0"
      by (simp add: collapse_dots_barrier [OF c] collapse_dots_no_dot [OF t])
    with c show ?thesis by (simp add: Cons)
  qed
  then obtain Y' where Y': "collapse_dots db (t @ Y) = t @ Y'"
      "Y' = [] \<or> py_isspace db (hd Y')" by blast
  have "\<exists>X'. collapse_dots db (X @ t @ Y) = X' @ t @ Y' \<and> (X' = [] \<or> py_isspace db (last X'))"
  proof (cases X rule: rev_cases)
    case Nil
    with Y' show ?thesis by simp
  next
    case (snoc X0 c)
    with d have c: "py_isspace db c" by (simp add: delimited_def)
    have "collapse_dots db (X0 @ c # (t @ Y)) = (collapse_dots db X0 @ [c]) @ t @ Y'"
      by (simp add: collapse_dots_barrier [OF c] Y')
    with c show ?thesis by (auto simp: snoc)
  qed
  with Y'(2) show ?thesis
    unfolding occurs_def delimited_def s by blast
qed

lemma special_occurs:
  assumes occ: "occurs db t s" and t: "list_all (py_isword db) t"
  shows "occurs db t (replace_special db s)"
proof -
  let ?f = "\<lambda>c. if py_isword db c \<or> py_isspace db c then c else 32"
  from occ obtain X Y where s: "s = X @ t @ Y" and d: "delimited db X Y"
    by (auto simp: occurs_def)
  have "map ?f t = t" using t by (simp add: list_all_iff map_idI)
  then have "replace_special db s = map ?f X @ t @ map ?f Y"
    by (simp add: replace_special_map s)
  moreover have "map ?f X = [] \<or> py_isspace db (last (map ?f X))"
    using d by (cases X rule: rev_cases) (auto simp: delimited_def)
  moreover have "map ?f Y = [] \<or> py_isspace db (hd (map ?f Y))"
    using d by (cases Y) (auto simp: delimited_def)
  ultimately show ?thesis
    unfolding occurs_def delimited_def by blast
qed

lemma replace_special_chars:
  "list_all (\<lambda>c. py_isword db c \<or> py_isspace db c) (replace_special db s)"
  by (auto simp: replace_special_map list_all_iff)

lemma replace_special_id:
  "list_all (\<lambda>c. py_isword db c \<or> py_isspace db c) s \<Longrightarrow> replace_special db s = s"
  by (simp add: replace_special_map list_all_iff map_idI)

subsection \<open>The lexicon\<close>

lemma common_terms_letters:
  "t \<in> common_terms \<Longrightarrow> list_all (\<lambda>c. 97 \<le> c \<and> c \<le> 122) t"
  unfolding common_terms_def u_def by auto

lemma preserved_terms_letters:
  "t \<in> preserved_terms \<Longrightarrow> t \<noteq> [] \<and> list_all (\<lambda>c. 97 \<le> c \<and> c \<le> 122) t"
  unfolding preserved_terms_def u_def by auto

lemma common_terms_no_digit:
  assumes "t \<in> common_terms" "c \<in> set t"
  shows "\<not> py_isdecimal db c"
proof -
  from common_terms_letters [OF assms(1)] assms(2) have "97 \<le> c \<and> c \<le> 122"
    by (simp add: list_all_iff)
  then show ?thesis by (simp add: py_isdecimal_def)
qed

subsection \<open>The words that are kept\<close>

lemma kept_words_filter:
  "kept_words db x =
     filter (\<lambda>w. py_lower db w \<notin> common_terms \<or> py_lower db w \<in> preserved_terms
                  \<or> py_lower db w \<in> model_numbers db (cleaned db x))
       (py_split db (cleaned db x))"
  by (simp add: kept_words_def filter_words_filter)

lemma kept_words_tokens: "list_all (token db) (kept_words db x)"
  by (auto simp: kept_words_filter list_all_iff dest: py_split_tokens)

lemma search_form_join: "search_form db x = py_join [32] (kept_words db x)"
proof -
  have "search_form db x = collapse_whitespace db (py_join [32] (kept_words db x))"
    by (simp add: search_form_def Let_def kept_words_def cleaned_def)
  then show ?thesis by (simp add: collapse_whitespace_join [OF kept_words_tokens])
qed

lemma py_split_search_form: "py_split db (search_form db x) = kept_words db x"
  by (simp add: search_form_join py_split_join [OF kept_words_tokens])

lemma set_py_join: "set (py_join [c] ts) \<subseteq> \<Union> (set ` set ts) \<union> {c}"
  by (induction "[c]" ts rule: py_join.induct) auto

lemma py_split_chars: "w \<in> set (py_split db s) \<Longrightarrow> set w \<subseteq> set s"
  by (auto dest: py_split_occurs)

lemma kept_words_chars:
  assumes "w \<in> set (kept_words db x)" "c \<in> set w"
  shows "c \<in> set (cleaned db x)" "\<not> py_isspace db c"
proof -
  from assms(1) have w: "w \<in> set (py_split db (cleaned db x))"
    by (simp add: kept_words_filter)
  with assms(2) show "c \<in> set (cleaned db x)"
    using py_split_chars by blast
  from py_split_tokens [OF w] assms(2) show "\<not> py_isspace db c"
    by (simp add: token_def list_all_iff)
qed

lemma search_form_chars:
  assumes "c \<in> set (search_form db x)"
  shows "c = 32 \<or> (c \<in> set (cleaned db x) \<and> \<not> py_isspace db c)"
proof -
  from assms set_py_join [of 32 "kept_words db x"]
  have "c = 32 \<or> (\<exists>w\<in>set (kept_words db x). c \<in> set w)"
    by (auto simp: search_form_join)
  then show ?thesis using kept_words_chars by blast
qed

lemma search_form_word_or_space:
  "list_all (\<lambda>c. py_isword db c \<or> py_isspace db c) (search_form db x)"
proof -
  have "py_isword db c \<or> py_isspace db c" if "c \<in> set (search_form db x)" for c
  proof -
    from search_form_chars [OF that] show ?thesis
    proof
      assume "c = 32" then show ?thesis by simp
    next
      assume "c \<in> set (cleaned db x) \<and> \<not> py_isspace db c"
      with replace_special_chars [of db "collapse_dots db (strip_accents db x)"]
      show ?thesis by (auto simp: cleaned_def list_all_iff)
    qed
  qed
  then show ?thesis by (simp add: list_all_iff)
qed

lemma dot_not_word: "\<not> py_isword db 46" "\<not> py_isspace db 46"
  by (simp_all add: py_isword_def py_isalnum_def py_isspace_def)

lemma search_form_no_dot: "46 \<notin> set (search_form db x)"
  using search_form_word_or_space [of db x] dot_not_word [of db]
  by (auto simp: list_all_iff)

subsection \<open>A second pass\<close>

lemma second_pass:
  assumes fixed: "strip_accents db (py_lower db (search_form db x)) = search_form db x"
  shows "search_form db (py_lower db (search_form db x)) = search_form db x"
proof -
  define r where "r = search_form db x"
  have cl: "cleaned db (py_lower db r) = r"
    unfolding cleaned_def
    using fixed search_form_no_dot [of db x] search_form_word_or_space [of db x]
    by (simp add: r_def collapse_dots_no_dot replace_special_id)
  have split: "py_split db r = kept_words db x"
    by (simp add: r_def py_split_search_form)
  have "kept_words db (py_lower db r) = kept_words db x"
  proof -
    have "w \<in> set (kept_words db x) \<Longrightarrow>
        py_lower db w \<notin> common_terms \<or> py_lower db w \<in> preserved_terms
          \<or> py_lower db w \<in> model_numbers db r" for w
    proof -
      assume "w \<in> set (kept_words db x)"
      then consider "py_lower db w \<notin> common_terms" | "py_lower db w \<in> preserved_terms"
        | "py_lower db w \<in> model_numbers db (cleaned db x)"
        by (auto simp: kept_words_filter)
      then show ?thesis
      proof cases
        case 3
        then obtain c where "c \<in> set (py_lower db w)" "py_isdecimal db c"
          using model_numbers_digit by blast
        then have "py_lower db w \<notin> common_terms"
          using common_terms_no_digit by blast
        then show ?thesis by simp
      qed simp_all
    qed
    then have "filter (\<lambda>w. py_lower db w \<notin> common_terms \<or> py_lower db w \<in> preserved_terms
                  \<or> py_lower db w \<in> model_numbers db r) (kept_words db x) = kept_words db x"
      by (simp add: filter_id_conv)
    then show ?thesis
      unfolding kept_words_filter [of db "py_lower db r"] cl split .
  qed
  then have "py_join [32] (kept_words db (py_lower db r)) = py_join [32] (kept_words db x)"
    by simp
  then have "search_form db (py_lower db r) = search_form db x"
    by (simp only: search_form_join)
  then show ?thesis by (simp only: r_def)
qed

subsection \<open>ASCII input\<close>

lemma set_re_sub_filter:
  "set (concat (map (\<lambda>p. case p of Lit c \<Rightarrow> [c] | Hit m \<Rightarrow> filter g m) (re_scan db r prev s)))
     \<subseteq> set s"
proof (induction db r prev s rule: re_scan.induct)
  case (1 db r prev)
  then show ?case by simp
next
  case (2 db r prev c cs)
  show ?case
  proof (cases "match_here db r prev (c # cs)")
    case None
    with 2(1) [OF None] show ?thesis by auto
  next
    case (Some k)
    show ?thesis
    proof (cases "k = 0")
      case True
      with 2(2) [OF Some True] Some show ?thesis by auto
    next
      case False
      have "set (take k (c # cs)) \<subseteq> set (c # cs)" by (rule set_take_subset)
      moreover have "set (drop k (c # cs)) \<subseteq> set (c # cs)" by (rule set_drop_subset)
      ultimately show ?thesis
        using 2(3) [OF Some False] Some False by (simp del: take.simps drop.simps) blast
    qed
  qed
qed

lemma collapse_dots_chars: "set (collapse_dots db s) \<subseteq> set s"
  unfolding collapse_dots_def re_sub_def by (rule set_re_sub_filter)

lemma ascii_fixed:
  assumes "list_all (\<lambda>c. c < 128) s"
  shows "strip_accents db (py_lower db (search_form db (py_lower db s)))
           = search_form db (py_lower db s)"
proof -
  define x where "x = py_lower db s"
  have x: "list_all plain x"
    using assms by (auto simp: x_def py_lower_ascii list_all_iff plain_def ascii_lower_def)
  then have "list_all (\<lambda>c. c < 128) x" by (simp add: list_all_iff plain_def)
  then have "strip_accents db x = x" by (simp add: strip_accents_base base_chars_ascii)
  with collapse_dots_chars [of db x] x have "list_all plain (collapse_dots db (strip_accents db x))"
    by (auto simp: list_all_iff)
  then have "list_all plain (cleaned db x)"
    by (auto simp: cleaned_def replace_special_map list_all_iff plain_def)
  then have cl: "\<forall>c\<in>set (cleaned db x). plain c" by (simp add: list_all_iff)
  have pl: "plain c" if "c \<in> set (search_form db x)" for c
    using search_form_chars [OF that] cl by (auto simp: plain_def)
  then have "list_all (\<lambda>c. c < 128) (search_form db x)"
    by (auto simp: list_all_iff plain_def)
  moreover have "map ascii_lower (search_form db x) = search_form db x"
    using pl by (intro map_idI) (auto simp: plain_def ascii_lower_def)
  ultimately show ?thesis
    by (simp add: x_def [symmetric] py_lower_ascii strip_accents_base base_chars_ascii)
qed

subsection \<open>Preserved terms\<close>

lemma preserved_word_kept:
  assumes st: "whitespace_stable db" and t: "t \<in> preserved_terms"
    and w: "w \<in> set (py_split db s)" and wt: "map ascii_lower w = t"
  shows "t \<in> set (kept_words db (py_lower db s))"
proof -
  from preserved_terms_letters [OF t] have tne: "t \<noteq> []"
    and tl: "\<forall>c\<in>set t. 97 \<le> c \<and> c \<le> 122" by (simp_all add: list_all_iff)
  have wa: "list_all (\<lambda>c. c < 128) w"
  proof -
    have "c < 128" if "c \<in> set w" for c
    proof -
      from that wt have "ascii_lower c \<in> set t" by auto
      with tl have "97 \<le> ascii_lower c \<and> ascii_lower c \<le> 122" by blast
      then show ?thesis by (auto simp: ascii_lower_def split: if_splits)
    qed
    then show ?thesis by (simp add: list_all_iff)
  qed
  from tl have ta: "list_all (\<lambda>c. c < 128) t" by (auto simp: list_all_iff)
  from tl have tdot: "46 \<notin> set t" by auto
  from tl have tw: "list_all (py_isword db) t"
    by (auto simp: list_all_iff py_isword_def py_isalnum_def)
  from tl tne have tok: "token db t"
    by (auto simp: token_def list_all_iff py_isspace_def)
  have "map ascii_lower t = t"
    using tl by (intro map_idI) (auto simp: ascii_lower_def)
  then have low: "py_lower db t = t"
    by (simp add: py_lower_ascii [OF ta])
  from w have "occurs db w s"
    using py_split_occurs by (simp add: occurs_def)
  then have "occurs db t (py_lower db s)"
    using lower_occurs [OF st _ wa] wt by simp
  then have "occurs db t (strip_accents db (py_lower db s))"
    by (rule accents_occurs [OF st _ ta])
  then have "occurs db t (collapse_dots db (strip_accents db (py_lower db s)))"
    by (rule dots_occurs [OF _ tdot])
  then have "occurs db t (cleaned db (py_lower db s))"
    unfolding cleaned_def by (rule special_occurs [OF _ tw])
  then have "t \<in> set (py_split db (cleaned db (py_lower db s)))"
    using occurs_py_split [OF tok] by (auto simp: occurs_def)
  with t low show ?thesis by (simp add: kept_words_filter)
qed

subsection \<open>Finding the model numbers\<close>

lemma prev_after_add:
  "prev_after (prev_after p s i) (drop i s) j = prev_after p s (i + j)"
  by (simp add: prev_after_def take_add)

lemma takeWhile_barrier: "\<not> P c \<Longrightarrow> takeWhile P (a @ c # b) = takeWhile P a"
  by (induction a) auto

lemma rmatch_class_le:
  "class_rejects db r c \<Longrightarrow> k \<in> set (rmatch db r prev (a @ c # b)) \<Longrightarrow> k \<le> length a"
proof (induction r arbitrary: prev a k)
  case (One cs)
  then show ?case by (cases a) (auto split: if_splits)
next
  case (ZeroOrMore cs)
  then have "takeWhile (cset_mem db cs) (a @ c # b) = takeWhile (cset_mem db cs) a"
    by (simp add: takeWhile_barrier)
  moreover have "length (takeWhile (cset_mem db cs) a) \<le> length a"
    by (rule length_takeWhile_le)
  ultimately show ?case using ZeroOrMore.prems(2) by auto
next
  case (OneOrMore cs)
  then have "takeWhile (cset_mem db cs) (a @ c # b) = takeWhile (cset_mem db cs) a"
    by (simp add: takeWhile_barrier)
  moreover have "length (takeWhile (cset_mem db cs) a) \<le> length a"
    by (rule length_takeWhile_le)
  ultimately show ?case using OneOrMore.prems(2) by auto
next
  case (Then x y)
  from Then.prems(2) obtain i j where i: "i \<in> set (rmatch db x prev (a @ c # b))"
    and j: "j \<in> set (rmatch db y (prev_after prev (a @ c # b) i) (drop i (a @ c # b)))"
    and k: "k = i + j"
    by auto
  from Then.prems(1) have cx: "class_rejects db x c" and cy: "class_rejects db y c"
    by simp_all
  from Then.IH(1) [OF cx i] have ia: "i \<le> length a" .
  then have "drop i (a @ c # b) = drop i a @ c # b" by simp
  with j Then.IH(2) [OF cy, of j _ "drop i a"] have "j \<le> length (drop i a)" by simp
  with ia show ?case by (simp add: k)
next
  case (Either x y)
  then show ?case by auto
next
  case WordBoundary
  then show ?case by (auto split: if_splits)
qed

lemma rmatch_class_barrier:
  "class_rejects db r c \<Longrightarrow> rmatch db r prev (a @ c # b) = rmatch db r prev (a @ [c])"
proof (induction r arbitrary: prev a)
  case (One cs)
  then show ?case by (cases a) auto
next
  case (ZeroOrMore cs)
  then have "takeWhile (cset_mem db cs) (a @ c # b) = takeWhile (cset_mem db cs) (a @ [c])"
    by (simp add: takeWhile_barrier)
  then show ?case by simp
next
  case (OneOrMore cs)
  then have "takeWhile (cset_mem db cs) (a @ c # b) = takeWhile (cset_mem db cs) (a @ [c])"
    by (simp add: takeWhile_barrier)
  then show ?case by simp
next
  case (Then x y)
  then have cx: "class_rejects db x c" and cy: "class_rejects db y c"
    and x: "rmatch db x prev (a @ c # b) = rmatch db x prev (a @ [c])"
    and y: "\<And>p t. rmatch db y p (t @ c # b) = rmatch db y p (t @ [c])"
    by auto
  have "map (\<lambda>k. map (\<lambda>j. k + j)
               (rmatch db y (prev_after prev (a @ c # b) k) (drop k (a @ c # b))))
          (rmatch db x prev (a @ [c]))
      = map (\<lambda>k. map (\<lambda>j. k + j)
               (rmatch db y (prev_after prev (a @ [c]) k) (drop k (a @ [c]))))
          (rmatch db x prev (a @ [c]))"
  proof (rule map_cong [OF refl])
    fix k assume "k \<in> set (rmatch db x prev (a @ [c]))"
    then have k: "k \<le> length a" by (rule rmatch_class_le [OF cx])
    then have "prev_after prev (a @ c # b) k = prev_after prev a k"
      "prev_after prev (a @ [c]) k = prev_after prev a k"
      by (simp_all add: prev_after_def)
    moreover have "drop k (a @ c # b) = drop k a @ c # b" "drop k (a @ [c]) = drop k a @ [c]"
      using k by simp_all
    ultimately show "map (\<lambda>j. k + j)
               (rmatch db y (prev_after prev (a @ c # b) k) (drop k (a @ c # b)))
         = map (\<lambda>j. k + j)
               (rmatch db y (prev_after prev (a @ [c]) k) (drop k (a @ [c])))"
      by (simp only: y)
  qed
  then show ?case by (simp only: rmatch.simps x)
next
  case (Either x y)
  then show ?case by simp
next
  case WordBoundary
  show ?case by (cases a) (simp_all add: word_here_def)
qed

lemma match_here_class_barrier:
  "class_rejects db r c \<Longrightarrow> match_here db r prev (a @ c # b) = match_here db r prev (a @ [c])"
  by (simp add: match_here_def rmatch_class_barrier [of db r c prev a b])

lemma match_here_class_le:
  "class_rejects db r c \<Longrightarrow> match_here db r prev (a @ c # b) = Some k \<Longrightarrow> k \<le> length a"
  using rmatch_class_le [of db r c k prev a b]
  by (auto simp: match_here_def split: list.splits)

lemma re_scan_class_barrier:
  "class_rejects db r c \<Longrightarrow>
     re_scan db r prev (a @ c # b) = re_scan db r prev (a @ [c]) @ re_scan db r (Some c) b"
proof (induction a arbitrary: prev rule: length_induct)
  case (1 a)
  note cr = 1(2)
  show ?case
  proof (cases a)
    case Nil
    have "match_here db r prev (c # b) = None \<or> match_here db r prev (c # b) = Some 0"
      using match_here_class_le [OF cr, of prev "[]" b]
      by (cases "match_here db r prev (c # b)") auto
    moreover have "match_here db r prev [c] = None \<or> match_here db r prev [c] = Some 0"
      using match_here_class_le [OF cr, of prev "[]" "[]"]
      by (cases "match_here db r prev [c]") auto
    ultimately show ?thesis by (auto simp: Nil)
  next
    case (Cons x xs)
    have m: "match_here db r prev (a @ c # b) = match_here db r prev (a @ [c])"
      by (rule match_here_class_barrier [OF cr])
    have step: "re_scan db r (Some x) (xs @ c # b)
        = re_scan db r (Some x) (xs @ [c]) @ re_scan db r (Some c) b"
      using 1(1) cr by (simp add: Cons)
    show ?thesis
    proof (cases "match_here db r prev (a @ c # b)")
      case None
      with m have "match_here db r prev (a @ [c]) = None" by simp
      with None step show ?thesis by (simp add: Cons)
    next
      case (Some k)
      with m have S': "match_here db r prev (a @ [c]) = Some k" by simp
      show ?thesis
      proof (cases "k = 0")
        case True
        with Some S' step show ?thesis by (simp add: Cons)
      next
        case False
        from match_here_class_le [OF cr Some] have k: "k \<le> length a" .
        have pa: "prev_after prev (a @ c # b) k = prev_after prev (a @ [c]) k"
          using k by (simp add: prev_after_def)
        have d1: "drop k (a @ c # b) = drop k a @ c # b"
          using k by simp
        have d2: "drop k (a @ [c]) = drop k a @ [c]"
          using k by simp
        have t1: "take k (a @ c # b) = take k (a @ [c])"
          using k by simp
        have l: "re_scan db r prev (a @ c # b)
            = Hit (take k (a @ c # b))
                # re_scan db r (prev_after prev (a @ c # b) k) (drop k (a @ c # b))"
          using Some False by (simp add: Cons)
        have r: "re_scan db r prev (a @ [c])
            = Hit (take k (a @ [c]))
                # re_scan db r (prev_after prev (a @ [c]) k) (drop k (a @ [c]))"
          using S' False by (simp add: Cons)
        have "length (drop k a) < length a"
          using False by (simp add: Cons)
        with 1(1) cr
        have ih: "re_scan db r (prev_after prev (a @ [c]) k) (drop k a @ c # b)
            = re_scan db r (prev_after prev (a @ [c]) k) (drop k a @ [c])
                @ re_scan db r (Some c) b"
          by blast
        show ?thesis
          unfolding l r d1 d2 t1 pa ih by simp
      qed
    qed
  qed
qed

lemma rmatch_context:
  assumes "t = [] \<or> (class_rejects db r (hd t) \<and> \<not> py_isword db (hd t))"
    and "word_before db prev = word_before db prev'"
  shows "rmatch db r prev (a @ t) = rmatch db r prev' a"
  using assms
proof (induction r arbitrary: prev prev' a)
  case (One cs)
  then show ?case by (cases a; cases t) auto
next
  case (ZeroOrMore cs)
  then have "takeWhile (cset_mem db cs) (a @ t) = takeWhile (cset_mem db cs) a"
    by (cases t) (simp_all add: takeWhile_barrier)
  then show ?case by simp
next
  case (OneOrMore cs)
  then have "takeWhile (cset_mem db cs) (a @ t) = takeWhile (cset_mem db cs) a"
    by (cases t) (simp_all add: takeWhile_barrier)
  then show ?case by simp
next
  case (Then x y)
  from Then.prems(1) have tx: "t = [] \<or> (class_rejects db x (hd t) \<and> \<not> py_isword db (hd t))"
    and ty: "t = [] \<or> (class_rejects db y (hd t) \<and> \<not> py_isword db (hd t))"
    by auto
  have x: "rmatch db x prev (a @ t) = rmatch db x prev' a"
    by (rule Then.IH(1) [OF tx Then.prems(2)])
  have "map (\<lambda>k. map (\<lambda>j. k + j)
               (rmatch db y (prev_after prev (a @ t) k) (drop k (a @ t))))
          (rmatch db x prev' a)
      = map (\<lambda>k. map (\<lambda>j. k + j) (rmatch db y (prev_after prev' a k) (drop k a)))
          (rmatch db x prev' a)"
  proof (rule map_cong [OF refl])
    fix k assume "k \<in> set (rmatch db x prev' a)"
    then have k: "k \<le> length a" by (rule rmatch_le)
    then have wb: "word_before db (prev_after prev (a @ t) k)
        = word_before db (prev_after prev' a k)"
      using Then.prems(2) by (simp add: prev_after_def)
    have d: "drop k (a @ t) = drop k a @ t"
      using k by simp
    have "rmatch db y (prev_after prev (a @ t) k) (drop k a @ t)
        = rmatch db y (prev_after prev' a k) (drop k a)"
      by (rule Then.IH(2) [OF ty wb])
    then show "map (\<lambda>j. k + j)
               (rmatch db y (prev_after prev (a @ t) k) (drop k (a @ t)))
         = map (\<lambda>j. k + j) (rmatch db y (prev_after prev' a k) (drop k a))"
      by (simp only: d)
  qed
  then show ?case by (simp only: rmatch.simps x)
next
  case (Either x y)
  from Either.prems(1)
  have tx: "t = [] \<or> (class_rejects db x (hd t) \<and> \<not> py_isword db (hd t))"
    and ty: "t = [] \<or> (class_rejects db y (hd t) \<and> \<not> py_isword db (hd t))"
    by auto
  have "rmatch db x prev (a @ t) = rmatch db x prev' a"
    by (rule Either.IH(1) [OF tx Either.prems(2)])
  moreover have "rmatch db y prev (a @ t) = rmatch db y prev' a"
    by (rule Either.IH(2) [OF ty Either.prems(2)])
  ultimately show ?case by (simp only: rmatch.simps)
next
  case WordBoundary
  then have "word_here db (a @ t) = word_here db a"
    by (cases a; cases t) (auto simp: word_here_def)
  with WordBoundary.prems(2) show ?case by simp
qed

lemma prefix_takeWhile:
  "k \<le> length (takeWhile P s) \<Longrightarrow> x \<in> set (take k s) \<Longrightarrow> P x"
proof (induction s arbitrary: k)
  case Nil
  then show ?case by simp
next
  case (Cons c s)
  show ?case
  proof (cases k)
    case 0
    with Cons.prems show ?thesis by simp
  next
    case (Suc n)
    with Cons.prems have c: "P c" and n: "n \<le> length (takeWhile P s)"
      by (auto split: if_splits)
    from Cons.prems(2) Suc have "x = c \<or> x \<in> set (take n s)" by simp
    with c Cons.IH [OF n] show ?thesis by blast
  qed
qed

lemma set_rmatch_ZeroOrMore:
  "k \<in> set (rmatch db (ZeroOrMore cs) prev s) \<longleftrightarrow>
     k \<le> length (takeWhile (cset_mem db cs) s)"
  by auto

lemma model_number_parts:
  assumes "k \<in> set (rmatch db model_number_pattern p s)"
  shows "1 \<le> k" and "k \<le> length s" and "\<forall>c\<in>set (take k s). model_number_char db c"
    and "word_before db (prev_after p s k) \<noteq> word_here db (drop k s)"
proof -
  let ?r3 = "Then (ZeroOrMore (CUnion lower_az digit_09)) WordBoundary"
  let ?r2 = "Then (OneOrMore CDigit) ?r3"
  let ?r1 = "Then (ZeroOrMore lower_az) ?r2"
  from assms have "k \<in> set (rmatch db (Then WordBoundary ?r1) p s)"
    by (simp only: model_number_pattern_def)
  then obtain i0 j0 where k0: "k = i0 + j0" and i0: "i0 \<in> set (rmatch db WordBoundary p s)"
    and j0: "j0 \<in> set (rmatch db ?r1 (prev_after p s i0) (drop i0 s))"
    unfolding set_rmatch_Then by blast
  from i0 have i00: "i0 = 0" by (simp split: if_splits)
  have pa: "prev_after p s 0 = p" by (simp add: prev_after_def)
  from j0 have "k \<in> set (rmatch db ?r1 p s)" by (simp only: k0 i00 pa drop_0 add_0)
  then obtain i1 j1 where k1: "k = i1 + j1"
    and i1: "i1 \<in> set (rmatch db (ZeroOrMore lower_az) p s)"
    and j1: "j1 \<in> set (rmatch db ?r2 (prev_after p s i1) (drop i1 s))"
    unfolding set_rmatch_Then by blast
  from j1 obtain i2 j2 where k2: "j1 = i2 + j2"
    and i2: "i2 \<in> set (rmatch db (OneOrMore CDigit) (prev_after p s i1) (drop i1 s))"
    and j2: "j2 \<in> set (rmatch db ?r3 (prev_after (prev_after p s i1) (drop i1 s) i2)
                (drop i2 (drop i1 s)))"
    unfolding set_rmatch_Then by blast
  have dd: "drop i2 (drop i1 s) = drop (i1 + i2) s"
    by (simp add: add.commute)
  from j2 have j2': "j2 \<in> set (rmatch db ?r3 (prev_after p s (i1 + i2)) (drop (i1 + i2) s))"
    by (simp only: prev_after_add dd)
  then obtain i3 i4 where k3: "j2 = i3 + i4"
    and i3: "i3 \<in> set (rmatch db (ZeroOrMore (CUnion lower_az digit_09))
                (prev_after p s (i1 + i2)) (drop (i1 + i2) s))"
    and i4: "i4 \<in> set (rmatch db WordBoundary
                (prev_after (prev_after p s (i1 + i2)) (drop (i1 + i2) s) i3)
                (drop i3 (drop (i1 + i2) s)))"
    unfolding set_rmatch_Then by blast
  from i4 have i40: "i4 = 0" by (simp split: if_splits)
  have k': "k = i1 + i2 + i3" by (simp add: k1 k2 k3 i40)
  have dd3: "drop i3 (drop (i1 + i2) s) = drop k s"
    by (simp add: k' add.commute)
  have pp3: "prev_after (prev_after p s (i1 + i2)) (drop (i1 + i2) s) i3 = prev_after p s k"
    by (simp only: prev_after_add k')
  from i4 have "word_before db (prev_after (prev_after p s (i1 + i2)) (drop (i1 + i2) s) i3)
      \<noteq> word_here db (drop i3 (drop (i1 + i2) s))"
    by (simp split: if_splits)
  moreover have "i3 + (i1 + i2) = k" by (simp add: k')
  ultimately show "word_before db (prev_after p s k) \<noteq> word_here db (drop k s)"
    by (simp add: pp3)
  from i2 have i2': "1 \<le> i2" "i2 \<le> length (takeWhile (cset_mem db CDigit) (drop i1 s))"
    unfolding set_rmatch_OneOrMore by blast+
  then show "1 \<le> k" by (simp add: k')
  show "k \<le> length s" using assms by (rule rmatch_le)
  from i1 have "i1 \<le> length (takeWhile (cset_mem db lower_az) s)"
    unfolding set_rmatch_ZeroOrMore .
  then have 1: "\<forall>c\<in>set (take i1 s). cset_mem db lower_az c"
    using prefix_takeWhile [of i1 "cset_mem db lower_az" s] by blast
  from i2'(2) have 2: "\<forall>c\<in>set (take i2 (drop i1 s)). cset_mem db CDigit c"
    using prefix_takeWhile [of i2 "cset_mem db CDigit" "drop i1 s"] by blast
  from i3 have "i3 \<le> length (takeWhile (cset_mem db (CUnion lower_az digit_09))
      (drop (i1 + i2) s))"
    unfolding set_rmatch_ZeroOrMore .
  then have 3: "\<forall>c\<in>set (take i3 (drop (i1 + i2) s)).
      cset_mem db (CUnion lower_az digit_09) c"
    using prefix_takeWhile [of i3 "cset_mem db (CUnion lower_az digit_09)" "drop (i1 + i2) s"]
    by blast
  have "take k s = take i1 s @ take i2 (drop i1 s) @ take i3 (drop (i1 + i2) s)"
    by (simp only: k' take_add append_assoc)
  with 1 2 3 show "\<forall>c\<in>set (take k s). model_number_char db c"
    by (auto simp: model_number_char_def lower_az_def digit_09_def)
qed

lemma consistent_space:
  assumes "classes_consistent db" "py_isspace db c"
  shows "\<not> py_isword db c" "\<not> model_number_char db c"
proof -
  show "\<not> py_isword db c"
  proof (cases "c < 128")
    case True
    with assms(2) show ?thesis
      by (auto simp: py_isspace_def py_isword_def py_isalnum_def)
  next
    case False
    with assms have "\<not> uc_isalnum db c"
      unfolding classes_consistent_def py_isspace_def by auto
    with False show ?thesis by (simp add: py_isword_def py_isalnum_def)
  qed
  show "\<not> model_number_char db c"
  proof (cases "c < 128")
    case True
    with assms(2) show ?thesis
      by (auto simp: py_isspace_def model_number_char_def py_isdecimal_def)
  next
    case False
    with assms have "\<not> uc_isdecimal db c"
      unfolding classes_consistent_def py_isspace_def by auto
    with False show ?thesis by (simp add: model_number_char_def py_isdecimal_def)
  qed
qed

lemma consistent_char:
  assumes "classes_consistent db" "model_number_char db c"
  shows "py_isword db c"
    and "(c < 128 \<and> ascii_lower c = c) \<or> (\<not> c < 128 \<and> (\<forall>pre post. uc_lower db pre c post = [c]))"
proof -
  show "py_isword db c"
  proof (cases "c < 128")
    case True
    with assms(2) show ?thesis
      by (auto simp: model_number_char_def py_isdecimal_def py_isword_def py_isalnum_def)
  next
    case False
    with assms(2) have "uc_isdecimal db c"
      by (auto simp: model_number_char_def py_isdecimal_def)
    with False assms(1) have "uc_isalnum db c"
      unfolding classes_consistent_def by auto
    with False show ?thesis by (simp add: py_isword_def py_isalnum_def)
  qed
  show "(c < 128 \<and> ascii_lower c = c) \<or> (\<not> c < 128 \<and> (\<forall>pre post. uc_lower db pre c post = [c]))"
  proof (cases "c < 128")
    case True
    with assms(2) show ?thesis
      by (auto simp: model_number_char_def py_isdecimal_def ascii_lower_def)
  next
    case False
    with assms(2) have "uc_isdecimal db c"
      by (auto simp: model_number_char_def py_isdecimal_def)
    with False assms(1) have "\<forall>pre post. uc_lower db pre c post = [c]"
      unfolding classes_consistent_def by auto
    with False show ?thesis by simp
  qed
qed

lemma model_number_pattern_rejects:
  "\<not> model_number_char db c \<Longrightarrow> class_rejects db model_number_pattern c"
  by (simp add: model_number_pattern_def model_number_char_def lower_az_def digit_09_def)

lemma py_lower_from_fixed:
  "\<forall>c\<in>set w. (c < 128 \<and> ascii_lower c = c)
       \<or> (\<not> c < 128 \<and> (\<forall>pre post. uc_lower db pre c post = [c])) \<Longrightarrow>
     py_lower_from db pre w = w"
  by (induction w arbitrary: pre) auto

lemma model_number_whole:
  assumes con: "classes_consistent db" and w: "\<forall>c\<in>set w. model_number_char db c"
    and k: "k \<in> set (rmatch db model_number_pattern p w)"
  shows "k = length w"
proof (rule ccontr)
  assume neq: "k \<noteq> length w"
  from model_number_parts [OF k] have k1: "1 \<le> k" and kl: "k \<le> length w"
    and b: "word_before db (prev_after p w k) \<noteq> word_here db (drop k w)"
    by simp_all
  from neq kl have lt: "k < length w" by simp
  from k1 lt have ne: "take k w \<noteq> []" by auto
  then have "last (take k w) \<in> set (take k w)" by (rule last_in_set)
  then have "last (take k w) \<in> set w" by (rule in_set_takeD)
  with w con have "py_isword db (last (take k w))" using consistent_char(1) by blast
  with ne have wb: "word_before db (prev_after p w k)"
    by (simp add: prev_after_def word_before_def)
  from lt obtain c cs where d: "drop k w = c # cs"
    by (cases "drop k w") auto
  then have "c \<in> set (drop k w)" by simp
  then have "c \<in> set w" by (rule in_set_dropD)
  with w con have "py_isword db c" using consistent_char(1) by blast
  with d have "word_here db (drop k w)" by (simp add: word_here_def)
  with wb b show False by simp
qed

lemma model_number_match_here:
  assumes con: "classes_consistent db" and fm: "fullmatch db model_number_pattern w"
    and prev: "\<not> word_before db prev" and Y: "Y = [] \<or> py_isspace db (hd Y)"
  shows "match_here db model_number_pattern prev (w @ Y) = Some (length w)"
proof -
  from fm have k: "length w \<in> set (rmatch db model_number_pattern None w)"
    by (simp add: fullmatch_def)
  from model_number_parts(3) [OF k] have w: "\<forall>c\<in>set w. model_number_char db c" by simp
  have "Y = [] \<or> (class_rejects db model_number_pattern (hd Y) \<and> \<not> py_isword db (hd Y))"
    using Y consistent_space [OF con] model_number_pattern_rejects by blast
  moreover have "word_before db prev = word_before db None"
    using prev by (simp add: word_before_def)
  ultimately have eq: "rmatch db model_number_pattern prev (w @ Y)
      = rmatch db model_number_pattern None w"
    by (rule rmatch_context)
  from k obtain x xs where L: "rmatch db model_number_pattern None w = x # xs"
    by (cases "rmatch db model_number_pattern None w") auto
  then have "x \<in> set (rmatch db model_number_pattern None w)" by simp
  then have "x = length w" by (rule model_number_whole [OF con w])
  with L eq show ?thesis by (simp add: match_here_def)
qed

lemma re_scan_model_number:
  assumes con: "classes_consistent db" and fm: "fullmatch db model_number_pattern w"
    and prev: "\<not> word_before db prev" and Y: "Y = [] \<or> py_isspace db (hd Y)"
  shows "Hit w \<in> set (re_scan db model_number_pattern prev (w @ Y))"
proof -
  from fm have k: "length w \<in> set (rmatch db model_number_pattern None w)"
    by (simp add: fullmatch_def)
  from model_number_parts(1) [OF k] obtain c cs where w: "w = c # cs"
    by (cases w) auto
  have "match_here db model_number_pattern prev ((c # cs) @ Y) = Some (length (c # cs))"
    using model_number_match_here [OF con fm prev Y] by (simp only: w)
  then have "re_scan db model_number_pattern prev (c # cs @ Y)
      = Hit (c # cs) # re_scan db model_number_pattern
          (prev_after prev (c # cs @ Y) (length (c # cs))) Y"
    by simp
  then show ?thesis by (simp add: w)
qed

lemma model_number_found:
  assumes con: "classes_consistent db" and w: "w \<in> set (py_split db t)"
    and fm: "fullmatch db model_number_pattern w"
  shows "w \<in> model_numbers db t"
proof -
  from py_split_occurs [OF w] obtain X Y where t: "t = X @ w @ Y" and d: "delimited db X Y"
    by blast
  from d have Y: "Y = [] \<or> py_isspace db (hd Y)" by (simp add: delimited_def)
  have "Hit w \<in> set (re_scan db model_number_pattern None t)"
  proof (cases X rule: rev_cases)
    case Nil
    have "\<not> word_before db None" by (simp add: word_before_def)
    from re_scan_model_number [OF con fm this Y] show ?thesis by (simp add: t Nil)
  next
    case (snoc X0 c)
    with d have c: "py_isspace db c" by (simp add: delimited_def)
    from consistent_space [OF con c] have nw: "\<not> word_before db (Some c)"
      and cr: "class_rejects db model_number_pattern c"
      by (simp_all add: word_before_def model_number_pattern_rejects)
    have "re_scan db model_number_pattern None (X0 @ c # (w @ Y))
        = re_scan db model_number_pattern None (X0 @ [c])
            @ re_scan db model_number_pattern (Some c) (w @ Y)"
      by (rule re_scan_class_barrier [OF cr])
    with re_scan_model_number [OF con fm nw Y] show ?thesis by (simp add: t snoc)
  qed
  then show ?thesis
    by (force simp: model_numbers_def re_findall_def)
qed

lemma model_number_lower:
  assumes con: "classes_consistent db" and fm: "fullmatch db model_number_pattern w"
  shows "py_lower db w = w"
proof -
  from fm have k: "length w \<in> set (rmatch db model_number_pattern None w)"
    by (simp add: fullmatch_def)
  from model_number_parts(3) [OF k] have "\<forall>c\<in>set w. model_number_char db c" by simp
  with consistent_char(2) [OF con]
  have "\<forall>c\<in>set w. (c < 128 \<and> ascii_lower c = c)
       \<or> (\<not> c < 128 \<and> (\<forall>pre post. uc_lower db pre c post = [c]))"
    by blast
  then show ?thesis unfolding py_lower_def by (rule py_lower_from_fixed)
qed

subsection \<open>Invalid input\<close>




subsection \<open>The two modes\<close>



text \<open>
  Claim C7. For every string, mode \<^verbatim>\<open>'standard'\<close> returns the text as it is after the
  whitespace collapse of line 79, and mode \<^verbatim>\<open>'alphanumeric'\<close> returns that same text
  with every character outside \<^verbatim>\<open>[a-z0-9]\<close> deleted.
\<close>

theorem alphanumeric_is_stripped_standard:
  "process_brand_for_search db (PyStr s) standard = Inr (search_form db (py_lower db s))
   \<and> process_brand_for_search db (PyStr s) alphanumeric
       = Inr (filter lower_alnum (search_form db (py_lower db s)))"
  using standard_neq_alphanumeric by (simp add: process_str)

theorem alphanumeric_is_stripped_standard_witness:
  "process_brand_for_search ucd_excerpt (PyStr (u ''Tag Heuer Monaco Cal.2'')) standard
     = Inr (u ''tag heuer monaco cal2'')
   \<and> process_brand_for_search ucd_excerpt (PyStr (u ''Tag Heuer Monaco Cal.2'')) alphanumeric
     = Inr (filter lower_alnum (u ''tag heuer monaco cal2''))
   \<and> filter lower_alnum (u ''tag heuer monaco cal2'') = u ''tagheuermonacocal2''"
proof -
  have "search_form ucd_excerpt (py_lower ucd_excerpt (u ''Tag Heuer Monaco Cal.2''))
          = u ''tag heuer monaco cal2''"
    by code_simp
  moreover have "filter lower_alnum (u ''tag heuer monaco cal2'') = u ''tagheuermonacocal2''"
    by code_simp
  ultimately show ?thesis
    using alphanumeric_is_stripped_standard [of ucd_excerpt "u ''Tag Heuer Monaco Cal.2''"]
    by simp
qed

text \<open>
  Claim C4. For every string, the result of mode \<^verbatim>\<open>'alphanumeric'\<close> consists of
  characters of \<^verbatim>\<open>[a-z0-9]\<close> only; in particular it has no space.
\<close>

theorem alphanumeric_output_chars:
  "\<exists>r. process_brand_for_search db (PyStr s) alphanumeric = Inr r
       \<and> list_all lower_alnum r \<and> 32 \<notin> set r"
proof -
  have "list_all lower_alnum (filter lower_alnum xs)" for xs
    by (simp add: list_all_iff)
  moreover have "32 \<notin> set (filter lower_alnum xs)" for xs
    by (simp add: lower_alnum_def)
  ultimately show ?thesis by (simp add: process_str)
qed

theorem alphanumeric_output_chars_witness:
  "process_brand_for_search ucd_excerpt (PyStr (u ''Jaeger-LeCoultre Master Control''))
      alphanumeric = Inr (u ''jaegerlecoultremastercontrol'')
   \<and> list_all lower_alnum (u ''jaegerlecoultremastercontrol'')
   \<and> 32 \<notin> set (u ''jaegerlecoultremastercontrol'')"
proof -
  have "process_brand_for_search ucd_excerpt (PyStr (u ''Jaeger-LeCoultre Master Control''))
      alphanumeric = Inr (u ''jaegerlecoultremastercontrol'')"
    by code_simp
  then show ?thesis
    using alphanumeric_output_chars [of ucd_excerpt "u ''Jaeger-LeCoultre Master Control''"]
    by auto
qed

subsection \<open>The keep condition of the loop\<close>

lemma excerpt_consistent: "classes_consistent ucd_excerpt"
  by (auto simp: classes_consistent_def ucd_excerpt_def)

text \<open>
  Claim C6. Let \<open>word\<close> be one of the words that line 65 splits off the text and let the
  pattern of line 63 match the whole of it. Then line 63 has found it: its lower case is
  in \<^verbatim>\<open>model_numbers\<close>. The loop of lines 68-74 keeps it whatever the sets of common and
  of preserved terms are, so also when it is a common term: the third test of the
  disjunction decides then. With the sets of the program the word is a word of the result
  of mode \<^verbatim>\<open>'standard'\<close>. (With these sets no common term has a digit, see
  \<open>common_terms_no_digit\<close>, so that a word with both properties needs another set of
  common terms.) The classes of the database beyond ASCII are assumed to lie to each
  other as in Unicode (\<open>classes_consistent\<close>).
\<close>

theorem model_number_token_retained:
  assumes "classes_consistent db"
    and "word \<in> set (py_split db (cleaned db (py_lower db s)))"
    and "fullmatch db model_number_pattern word"
  shows "py_lower db word \<in> model_numbers db (cleaned db (py_lower db s))
       \<and> word \<in> set (filter_words db common preserved
                          (model_numbers db (cleaned db (py_lower db s)))
                          (py_split db (cleaned db (py_lower db s))) [])
       \<and> (\<exists>r. process_brand_for_search db (PyStr s) standard = Inr r
                 \<and> word \<in> set (py_split db r))"
proof -
  note found = model_number_found [OF assms]
  note low = model_number_lower [OF assms(1,3)]
  from assms(2) found low have "word \<in> set (kept_words db (py_lower db s))"
    by (simp add: kept_words_filter)
  then have "\<exists>r. process_brand_for_search db (PyStr s) standard = Inr r
                 \<and> word \<in> set (py_split db r)"
    using standard_neq_alphanumeric by (simp add: process_str py_split_search_form)
  with assms(2) found low show ?thesis
    by (simp add: filter_words_filter)
qed

theorem model_number_token_retained_witness:
  "u ''535'' \<in> model_numbers ucd_excerpt (u ''piaget ps 535 chronographe'')
   \<and> filter_words ucd_excerpt (insert (u ''535'') common_terms) preserved_terms
        (model_numbers ucd_excerpt (u ''piaget ps 535 chronographe''))
        (py_split ucd_excerpt (u ''piaget ps 535 chronographe'')) []
      = [u ''piaget'', u ''ps'', u ''535'']
   \<and> filter_words ucd_excerpt (insert (u ''535'') common_terms) preserved_terms {}
        (py_split ucd_excerpt (u ''piaget ps 535 chronographe'')) []
      = [u ''piaget'', u ''ps'']
   \<and> process_brand_for_search ucd_excerpt (PyStr (u ''Piaget PS 535 Chronographe'')) standard
      = Inr (u ''piaget ps 535'')"
proof -
  let ?s = "u ''Piaget PS 535 Chronographe''"
  let ?t = "u ''piaget ps 535 chronographe''"
  have t: "cleaned ucd_excerpt (py_lower ucd_excerpt ?s) = ?t" by code_simp
  have "u ''535'' \<in> set (py_split ucd_excerpt ?t)" by code_simp
  then have a: "u ''535'' \<in> set (py_split ucd_excerpt (cleaned ucd_excerpt (py_lower ucd_excerpt ?s)))"
    by (simp only: t)
  have b: "fullmatch ucd_excerpt model_number_pattern (u ''535'')" by code_simp
  have c: "py_lower ucd_excerpt (u ''535'') = u ''535''" by code_simp
  have d: "filter_words ucd_excerpt (insert (u ''535'') common_terms) preserved_terms
        (model_numbers ucd_excerpt ?t) (py_split ucd_excerpt ?t) []
      = [u ''piaget'', u ''ps'', u ''535'']" by code_simp
  have e: "filter_words ucd_excerpt (insert (u ''535'') common_terms) preserved_terms {}
        (py_split ucd_excerpt ?t) [] = [u ''piaget'', u ''ps'']" by code_simp
  have f: "process_brand_for_search ucd_excerpt (PyStr ?s) standard = Inr (u ''piaget ps 535'')"
    by code_simp
  from model_number_token_retained [OF excerpt_consistent a b,
      of "insert (u ''535'') common_terms" preserved_terms]
  have "py_lower ucd_excerpt (u ''535'') \<in> model_numbers ucd_excerpt ?t"
    by (simp only: t)
  then have g: "u ''535'' \<in> model_numbers ucd_excerpt ?t"
    by (simp only: c)
  from g d e f show ?thesis by blast
qed

subsection \<open>Preserved terms survive\<close>

lemma excerpt_stable: "whitespace_stable ucd_excerpt"
  by (auto simp: whitespace_stable_def ucd_excerpt_def py_isspace_def py_combining_def)

text \<open>
  Claim C5. Let \<open>t\<close> be a preserved term and let the input have a word, in the sense of
  \<^verbatim>\<open>split()\<close>, that is \<open>t\<close> up to the case of its letters. Then the result of mode
  \<^verbatim>\<open>'standard'\<close> has \<open>t\<close> as one of its words. The whitespace beside the word may be
  beyond ASCII; the rows of the database for such characters are assumed to be as in
  Unicode (\<open>whitespace_stable\<close>).
\<close>

theorem preserved_terms_survive:
  assumes "whitespace_stable db" and "t \<in> preserved_terms"
    and "w \<in> set (py_split db s)" and "map ascii_lower w = t"
  shows "\<exists>r. process_brand_for_search db (PyStr s) standard = Inr r
             \<and> t \<in> set (py_split db r)"
  using preserved_word_kept [OF assms] standard_neq_alphanumeric
  by (simp add: process_str py_split_search_form)

theorem preserved_terms_survive_witness:
  "process_brand_for_search ucd_excerpt
      (PyStr (u ''Omega'' @ [160] @ u ''SEAMASTER Professional'')) standard
     = Inr (u ''omega seamaster'')
   \<and> u ''seamaster'' \<in> set (py_split ucd_excerpt (u ''omega seamaster''))"
proof -
  let ?s = "u ''Omega'' @ [160] @ u ''SEAMASTER Professional''"
  have b: "u ''seamaster'' \<in> preserved_terms" by code_simp
  have c: "u ''SEAMASTER'' \<in> set (py_split ucd_excerpt ?s)" by code_simp
  have d: "map ascii_lower (u ''SEAMASTER'') = u ''seamaster''" by code_simp
  have e: "process_brand_for_search ucd_excerpt (PyStr ?s) standard
      = Inr (u ''omega seamaster'')" by code_simp
  from preserved_terms_survive [OF excerpt_stable b c d] e show ?thesis by simp
qed

subsection \<open>Idempotence\<close>

text \<open>
  Claim C2 fails on the code, by a defect of the code. Line 30 makes the text lower case
  (step 1 of the docstring, and what the classes \<^verbatim>\<open>[a-z]\<close> of lines 38, 63 and 83 rely
  on), but line 33 decomposes after it, and a decomposition can bring upper case back: the
  trade mark sign U+2122 has no lower case and decomposes to \<^verbatim>\<open>TM\<close>. So the first call
  returns \<^verbatim>\<open>"TM"\<close> and a second call on that returns \<^verbatim>\<open>"tm"\<close>. The two modes disagree on
  these letters: \<^verbatim>\<open>"Rolex"\<close> followed by U+2122 gives \<^verbatim>\<open>"rolexTM"\<close> in mode
  \<^verbatim>\<open>'standard'\<close> and \<^verbatim>\<open>"rolex"\<close> in mode \<^verbatim>\<open>'alphanumeric'\<close>.
\<close>

theorem trade_mark_sign_not_idempotent:
  "process_brand_for_search ucd_excerpt (PyStr [8482]) standard = Inr (u ''TM'')
   \<and> process_brand_for_search ucd_excerpt (PyStr (u ''TM'')) standard = Inr (u ''tm'')
   \<and> u ''TM'' \<noteq> u ''tm''
   \<and> process_brand_for_search ucd_excerpt (PyStr (u ''Rolex'' @ [8482])) standard
       = Inr (u ''rolexTM'')
   \<and> process_brand_for_search ucd_excerpt (PyStr (u ''Rolex'' @ [8482])) alphanumeric
       = Inr (u ''rolex'')"
  by code_simp

theorem trade_mark_sign_not_idempotent_witness:
  "process_brand_for_search ucd_excerpt (PyStr (u ''TM'')) standard
     \<noteq> process_brand_for_search ucd_excerpt (PyStr [8482]) standard"
  using trade_mark_sign_not_idempotent by (simp add: u_def)

text \<open>
  Where no such upper case arises a second call changes nothing: if the string \<open>s\<close> is
  ASCII, or more generally if lower-casing and stripping the diacritics of the result \<open>r\<close>
  (lines 30-34) give \<open>r\<close> again, then the result for \<open>r\<close> is \<open>r\<close>.
\<close>

lemma second_call_same_without_new_upper_case:
  assumes "process_brand_for_search db (PyStr s) standard = Inr r"
    and "list_all (\<lambda>c. c < 128) s \<or> strip_accents db (py_lower db r) = r"
  shows "process_brand_for_search db (PyStr r) standard = Inr r"
proof -
  from assms(1) have r: "r = search_form db (py_lower db s)"
    using standard_neq_alphanumeric by (simp add: process_str)
  from assms(2) ascii_fixed [of s db] have "strip_accents db (py_lower db r) = r"
    by (auto simp: r)
  then have "search_form db (py_lower db r) = r"
    unfolding r by (rule second_pass)
  then show ?thesis
    using standard_neq_alphanumeric by (simp add: process_str)
qed

subsection \<open>Concrete scenarios\<close>

text \<open>
  Claim C3. \<^verbatim>\<open>"Rolex Submariner GMT"\<close> gives \<^verbatim>\<open>"rolex submariner"\<close> in mode
  \<^verbatim>\<open>'standard'\<close> and \<^verbatim>\<open>"rolexsubmariner"\<close> in mode \<^verbatim>\<open>'alphanumeric'\<close>: the word
  \<^verbatim>\<open>gmt\<close> is a common term, not a preserved term and not a model number of the text, so
  the loop drops it. The input is ASCII, so this holds for every database.
\<close>

theorem rolex_submariner_gmt:
  "process_brand_for_search db (PyStr (u ''Rolex Submariner GMT'')) standard
     = Inr (u ''rolex submariner'')
   \<and> process_brand_for_search db (PyStr (u ''Rolex Submariner GMT'')) alphanumeric
     = Inr (u ''rolexsubmariner'')
   \<and> u ''gmt'' \<in> common_terms
   \<and> u ''gmt'' \<notin> preserved_terms
   \<and> u ''gmt'' \<notin> model_numbers db (u ''rolex submariner gmt'')"
  by code_simp

theorem rolex_submariner_gmt_witness:
  "process_brand_for_search ucd_excerpt (PyStr (u ''Rolex Submariner GMT'')) standard
     \<noteq> Inr (u ''rolex submariner gmt'')
   \<and> process_brand_for_search ucd_excerpt (PyStr (u ''Rolex Submariner GMT'')) alphanumeric
     \<noteq> Inr (u ''rolexsubmaringmt'')"
  using rolex_submariner_gmt [of ucd_excerpt] by (simp add: u_def)

text \<open>
  Claim C8. \<^verbatim>\<open>"F.P. Journe \<close>U+00C9\<^verbatim>\<open>l\<close>U+00E9\<^verbatim>\<open>gante"\<close> gives \<^verbatim>\<open>"fp journe elegante"\<close> in
  mode \<^verbatim>\<open>'standard'\<close> and \<^verbatim>\<open>"fpjourneelegante"\<close> in mode \<^verbatim>\<open>'alphanumeric'\<close>: the
  abbreviation \<^verbatim>\<open>f.p.\<close> loses its dots and the two accented letters become \<^verbatim>\<open>e\<close>.
\<close>

theorem fp_journe_elegante:
  "process_brand_for_search ucd_excerpt
      (PyStr (u ''F.P. Journe '' @ [201] @ u ''l'' @ [233] @ u ''gante'')) standard
     = Inr (u ''fp journe elegante'')
   \<and> process_brand_for_search ucd_excerpt
      (PyStr (u ''F.P. Journe '' @ [201] @ u ''l'' @ [233] @ u ''gante'')) alphanumeric
     = Inr (u ''fpjourneelegante'')
   \<and> collapse_dots ucd_excerpt (u ''f.p. journe elegante'') = u ''fp journe elegante''
   \<and> strip_accents ucd_excerpt ([233] @ u ''l'' @ [233] @ u ''gante'') = u ''elegante''"
  by code_simp

theorem fp_journe_elegante_witness:
  "process_brand_for_search ucd_excerpt
      (PyStr (u ''F.P. Journe '' @ [201] @ u ''l'' @ [233] @ u ''gante'')) standard
     \<noteq> Inr (u ''f p journe elegante'')
   \<and> 46 \<notin> set (collapse_dots ucd_excerpt (u ''f.p. journe elegante''))"
  using fp_journe_elegante by (simp add: u_def)

text \<open>
  Claim C10. The result of mode \<^verbatim>\<open>'standard'\<close> is not always made of lower-case ASCII
  letters, digits and spaces: there are inputs whose result has another character. An
  underscore is a word character and stays (\<^verbatim>\<open>"a_b"\<close> is returned as it is, for every
  database), and so does a letter beyond ASCII that has no decomposition, such as the
  sharp s (U+00DF).
\<close>

theorem standard_output_not_confined:
  "(\<exists>s r. process_brand_for_search db (PyStr s) standard = Inr r
           \<and> \<not> list_all (\<lambda>c. lower_alnum c \<or> c = 32) r)
   \<and> process_brand_for_search db (PyStr (u ''a_b'')) standard = Inr (u ''a_b'')
   \<and> process_brand_for_search ucd_excerpt (PyStr [223]) standard = Inr [223]
   \<and> \<not> lower_alnum 95 \<and> \<not> lower_alnum 223"
proof -
  have a: "process_brand_for_search db (PyStr (u ''a_b'')) standard = Inr (u ''a_b'')"
    by code_simp
  have b: "\<not> list_all (\<lambda>c. lower_alnum c \<or> c = 32) (u ''a_b'')"
    by code_simp
  have c: "process_brand_for_search ucd_excerpt (PyStr [223]) standard = Inr [223]"
    by code_simp
  from a b have "\<exists>s r. process_brand_for_search db (PyStr s) standard = Inr r
           \<and> \<not> list_all (\<lambda>c. lower_alnum c \<or> c = 32) r"
    by blast
  with a c show ?thesis by (simp add: lower_alnum_def)
qed

theorem standard_output_not_confined_witness:
  "95 \<in> set (u ''a_b'')
   \<and> process_brand_for_search ucd_excerpt (PyStr (u ''a_b'')) standard = Inr (u ''a_b'')
   \<and> process_brand_for_search ucd_excerpt (PyStr [223]) standard = Inr [223]"
  using standard_output_not_confined [of ucd_excerpt] by (simp add: u_def)

end
